theory Spec2Isabelle
  imports Complex_Main "HOL-Library.Sublist"
begin

section \<open>Python strings\<close>

text \<open>
  Text is modelled as \<^typ>\<open>string\<close>, one \<^typ>\<open>char\<close> per character, for
  text of the code points 0 to 255. Whitespace is what \<^verbatim>\<open>str.strip\<close> and
  \<^verbatim>\<open>str.isspace\<close> treat as whitespace there: the codes 9 to 13, 28 to 32, 133
  and 160.
\<close>

definition is_space :: "char \<Rightarrow> bool" where
  "is_space c =
     (let n = (of_char c :: int)
      in (9 \<le> n \<and> n \<le> 13) \<or> (28 \<le> n \<and> n \<le> 32) \<or> n = 133 \<or> n = 160)"

definition lstrip :: "string \<Rightarrow> string" where
  "lstrip s = dropWhile is_space s"

definition rstrip :: "string \<Rightarrow> string" where
  "rstrip s = rev (dropWhile is_space (rev s))"

definition strip :: "string \<Rightarrow> string" where
  "strip s = rstrip (lstrip s)"

text \<open>\<^verbatim>\<open>s.replace(c, "")\<close> and \<^verbatim>\<open>s.replace(c, d)\<close> for one-character strings.\<close>

definition remove_char :: "char \<Rightarrow> string \<Rightarrow> string" where
  "remove_char c s = filter (\<lambda>x. x \<noteq> c) s"

definition replace_char :: "char \<Rightarrow> char \<Rightarrow> string \<Rightarrow> string" where
  "replace_char c d s = map (\<lambda>x. if x = c then d else x) s"

text \<open>
  \<^verbatim>\<open>str.lower\<close>: the capital letters (the codes 65 to 90, 192 to 214 and 216 to
  222) move to their small letters, 32 codes further on.
\<close>

definition lower_char :: "char \<Rightarrow> char" where
  "lower_char c =
     (let n = (of_char c :: int)
      in if (65 \<le> n \<and> n \<le> 90) \<or> (192 \<le> n \<and> n \<le> 214) \<or> (216 \<le> n \<and> n \<le> 222)
         then char_of (n + 32) else c)"

definition lower :: "string \<Rightarrow> string" where
  "lower s = map lower_char s"

text \<open>\<^verbatim>\<open>w in text\<close>: \<open>w\<close> occurs in \<open>text\<close> as a contiguous run.\<close>

fun starts_with :: "string \<Rightarrow> string \<Rightarrow> bool" where
  "starts_with [] t = True"
| "starts_with (c # w) [] = False"
| "starts_with (c # w) (d # t) = (c = d \<and> starts_with w t)"

fun py_in :: "string \<Rightarrow> string \<Rightarrow> bool" where
  "py_in w [] = (w = [])"
| "py_in w (d # t) = (starts_with w (d # t) \<or> py_in w t)"

section \<open>Python numbers\<close>

text \<open>
  A Python \<^verbatim>\<open>float\<close> is an IEEE 754 binary64 number. Its finite values are modelled as
  the rationals they denote, and every float operation as the exact operation followed by
  \<open>fl\<close>, rounding to the nearest binary64 value with ties to the even significand
  (53 significant bits, least exponent \<open>-1022\<close>, subnormals included). Zero has no sign
  in this model.
\<close>

text \<open>\<^verbatim>\<open>int.bit_length\<close> for a non-negative integer.\<close>

function bit_length :: "int \<Rightarrow> int" where
  "bit_length n = (if n \<le> 0 then 0 else 1 + bit_length (n div 2))"
  by pat_completeness auto
termination
  by (relation "measure nat") auto

declare bit_length.simps [simp del]

definition pow2 :: "int \<Rightarrow> rat" where
  "pow2 e = (if 0 \<le> e then 2 ^ nat e else 1 / 2 ^ nat (- e))"

text \<open>For \<open>a > 0\<close>, the exponent \<open>e\<close> with \<open>2\<^sup>e \<le> a < 2\<^sup>e\<^sup>+\<^sup>1\<close>.\<close>

definition binary_exponent :: "rat \<Rightarrow> int" where
  "binary_exponent a =
     (if 1 \<le> a then bit_length \<lfloor>a\<rfloor> - 1
      else - bit_length (\<lceil>1 / a\<rceil> - 1))"

definition round_half_even :: "rat \<Rightarrow> int" where
  "round_half_even x =
     (let f = \<lfloor>x\<rfloor>; d = x - of_int f
      in if d < 1 / 2 then f else if 1 / 2 < d then f + 1
         else if even f then f else f + 1)"

definition fl :: "rat \<Rightarrow> rat" where
  "fl x =
     (if x = 0 then 0
      else let a = \<bar>x\<bar>;
               e = max (binary_exponent a) (- 1022);
               q = pow2 (e - 52);
               m = round_half_even (a / q)
           in sgn x * of_int m * q)"

datatype pyfloat = Finite rat | PosInf | NegInf | NaN

text \<open>A rounded result at or beyond \<open>2\<^sup>1\<^sup>0\<^sup>2\<^sup>4\<close> in magnitude is an infinity.\<close>

definition to_float :: "rat \<Rightarrow> pyfloat" where
  "to_float x =
     (let y = fl x
      in if pow2 1024 \<le> y then PosInf else if y \<le> - pow2 1024 then NegInf else Finite y)"

fun float_neg :: "pyfloat \<Rightarrow> pyfloat" where
  "float_neg (Finite x) = Finite (- x)"
| "float_neg PosInf = NegInf"
| "float_neg NegInf = PosInf"
| "float_neg NaN = NaN"

fun float_mul :: "pyfloat \<Rightarrow> pyfloat \<Rightarrow> pyfloat" where
  "float_mul (Finite x) (Finite y) = to_float (x * y)"
| "float_mul NaN _ = NaN"
| "float_mul _ NaN = NaN"
| "float_mul PosInf (Finite y) = (if y = 0 then NaN else if 0 < y then PosInf else NegInf)"
| "float_mul NegInf (Finite y) = (if y = 0 then NaN else if 0 < y then NegInf else PosInf)"
| "float_mul (Finite x) PosInf = (if x = 0 then NaN else if 0 < x then PosInf else NegInf)"
| "float_mul (Finite x) NegInf = (if x = 0 then NaN else if 0 < x then NegInf else PosInf)"
| "float_mul PosInf PosInf = PosInf"
| "float_mul PosInf NegInf = NegInf"
| "float_mul NegInf PosInf = NegInf"
| "float_mul NegInf NegInf = PosInf"

text \<open>
  \<^verbatim>\<open>int(x)\<close> for a float \<open>x\<close> truncates towards zero; it raises OverflowError on an
  infinity and ValueError on a NaN (\<open>None\<close>).
\<close>

definition py_trunc :: "rat \<Rightarrow> int" where
  "py_trunc x = (if 0 \<le> x then \<lfloor>x\<rfloor> else \<lceil>x\<rceil>)"

fun int_of_float :: "pyfloat \<Rightarrow> int option" where
  "int_of_float (Finite x) = Some (py_trunc x)"
| "int_of_float _ = None"

subsection \<open>Reading numbers from text\<close>

definition is_digit :: "char \<Rightarrow> bool" where
  "is_digit c = (let n = (of_char c :: int) in 48 \<le> n \<and> n \<le> 57)"

definition digit_val :: "char \<Rightarrow> int" where
  "digit_val c = of_char c - 48"

text \<open>
  A digit part is a digit followed by digits, each optionally preceded by one underscore.
  \<open>digitpart\<close> gives its digits, or \<open>None\<close> when the text is not a digit part.
\<close>

fun digitpart :: "string \<Rightarrow> int list option" where
  "digitpart [] = None"
| "digitpart [c] = (if is_digit c then Some [digit_val c] else None)"
| "digitpart (c # d # s) =
     (if is_digit c
      then (case (if d = CHR ''_'' then digitpart s else digitpart (d # s)) of
              None \<Rightarrow> None
            | Some ds \<Rightarrow> Some (digit_val c # ds))
      else None)"

definition digits_value :: "int list \<Rightarrow> int" where
  "digits_value ds = foldl (\<lambda>a d. 10 * a + d) 0 ds"

text \<open>
  \<^verbatim>\<open>int(s)\<close> for a string: surrounding whitespace is dropped, then an optional sign and a
  digit part are read; anything else raises ValueError (\<open>None\<close>). The interpreter's limit
  on the number of digits of such a string is not modelled.
\<close>

definition py_int :: "string \<Rightarrow> int option" where
  "py_int s =
     (case strip s of
        [] \<Rightarrow> None
      | c # r \<Rightarrow>
          if c = CHR ''-'' then map_option (\<lambda>ds. - digits_value ds) (digitpart r)
          else if c = CHR ''+'' then map_option digits_value (digitpart r)
          else map_option digits_value (digitpart (c # r)))"

text \<open>The text before the first character satisfying \<open>P\<close>, and the text after it if any.\<close>

definition split_first :: "(char \<Rightarrow> bool) \<Rightarrow> string \<Rightarrow> string \<times> string option" where
  "split_first P s =
     (takeWhile (\<lambda>c. \<not> P c) s,
      case dropWhile (\<lambda>c. \<not> P c) s of [] \<Rightarrow> None | _ # r \<Rightarrow> Some r)"

text \<open>
  The exponent of a float literal after its \<open>e\<close>: an optional sign and a digit part.
\<close>

definition exponent_part :: "string \<Rightarrow> int option" where
  "exponent_part s =
     (case s of
        [] \<Rightarrow> None
      | c # r \<Rightarrow>
          if c = CHR ''-'' then map_option (\<lambda>ds. - digits_value ds) (digitpart r)
          else if c = CHR ''+'' then map_option digits_value (digitpart r)
          else map_option digits_value (digitpart (c # r)))"

text \<open>
  The number of a float literal: digits with an optional point, at least one digit
  before or after the point. The result is its exact value.
\<close>

definition number_part :: "string \<Rightarrow> rat option" where
  "number_part s =
     (case split_first (\<lambda>c. c = CHR ''.'') s of
        (ip, None) \<Rightarrow> map_option (\<lambda>ds. of_int (digits_value ds)) (digitpart ip)
      | (ip, Some fp) \<Rightarrow>
          (if ip = [] then
             map_option (\<lambda>fs. of_int (digits_value fs) / 10 ^ length fs) (digitpart fp)
           else
             (case digitpart ip of
                None \<Rightarrow> None
              | Some ds \<Rightarrow>
                  if fp = [] then Some (of_int (digits_value ds))
                  else map_option
                         (\<lambda>fs. of_int (digits_value ds) + of_int (digits_value fs) / 10 ^ length fs)
                         (digitpart fp))))"

definition pow10 :: "int \<Rightarrow> rat" where
  "pow10 e = (if 0 \<le> e then 10 ^ nat e else 1 / 10 ^ nat (- e))"

definition abs_float_value :: "string \<Rightarrow> pyfloat option" where
  "abs_float_value s =
     (if lower s = ''inf'' \<or> lower s = ''infinity'' then Some PosInf
      else if lower s = ''nan'' then Some NaN
      else
        (case split_first (\<lambda>c. c = CHR ''e'' \<or> c = CHR ''E'') s of
           (m, None) \<Rightarrow> map_option to_float (number_part m)
         | (m, Some x) \<Rightarrow>
             (case number_part m of
                None \<Rightarrow> None
              | Some v \<Rightarrow> map_option (\<lambda>e. to_float (v * pow10 e)) (exponent_part x))))"

text \<open>
  \<^verbatim>\<open>float(s)\<close> for a string: surrounding whitespace is dropped, then an optional sign and
  a number, an infinity or a NaN are read; anything else raises ValueError (\<open>None\<close>).
  The value is the literal's exact value, rounded.
\<close>

definition py_float :: "string \<Rightarrow> pyfloat option" where
  "py_float s =
     (case strip s of
        [] \<Rightarrow> None
      | c # r \<Rightarrow>
          if c = CHR ''-'' then map_option float_neg (abs_float_value r)
          else if c = CHR ''+'' then abs_float_value r
          else abs_float_value (c # r))"

section \<open>scrapper.py: the count parser\<close>

text \<open>
  The body of the \<^verbatim>\<open>try\<close> block of \<^verbatim>\<open>parse_count\<close>; \<open>None\<close> when it raises.
\<close>

definition parse_count_try :: "string \<Rightarrow> int option" where
  "parse_count_try text =
     (let text = strip (remove_char CHR '','' text)
      in if py_in ''K'' text then
           (case py_float (remove_char CHR ''K'' text) of
              None \<Rightarrow> None
            | Some f \<Rightarrow> int_of_float (float_mul f (Finite 1000)))
         else if py_in ''M'' text then
           (case py_float (remove_char CHR ''M'' text) of
              None \<Rightarrow> None
            | Some f \<Rightarrow> int_of_float (float_mul f (Finite 1000000)))
         else py_int text)"

definition parse_count :: "string \<Rightarrow> int" where
  "parse_count text = (case parse_count_try text of None \<Rightarrow> 0 | Some n \<Rightarrow> n)"

section \<open>scrapper.py: entities and hashes\<close>

text \<open>
  The class \<^verbatim>\<open>\w\<close> of the regular expressions on text: the underscore and the
  letters and numbers among the code points 0 to 255.
\<close>

definition is_word_char :: "char \<Rightarrow> bool" where
  "is_word_char c =
     (let n = (of_char c :: int)
      in (48 \<le> n \<and> n \<le> 57) \<or> (65 \<le> n \<and> n \<le> 90) \<or> (97 \<le> n \<and> n \<le> 122) \<or> n = 95
         \<or> n = 170 \<or> n = 178 \<or> n = 179 \<or> n = 181 \<or> n = 185 \<or> n = 186
         \<or> (188 \<le> n \<and> n \<le> 190) \<or> (192 \<le> n \<and> n \<le> 214)
         \<or> (216 \<le> n \<and> n \<le> 246) \<or> (248 \<le> n \<and> n \<le> 255))"

text \<open>
  \<^verbatim>\<open>re.findall(m + r"\w+", text)\<close> for a marker character \<open>m\<close> that is not a word
  character: the matches from left to right, none overlapping.
\<close>

function findall_marked :: "char \<Rightarrow> string \<Rightarrow> string list" where
  "findall_marked m [] = []"
| "findall_marked m (c # s) =
     (if c = m \<and> takeWhile is_word_char s \<noteq> []
      then (c # takeWhile is_word_char s) # findall_marked m (dropWhile is_word_char s)
      else findall_marked m s)"
  by pat_completeness auto
termination
  by (relation "measure (\<lambda>(m, s). length s)") (auto simp: length_dropWhile_le less_Suc_eq_le)

definition extract_entities :: "string \<Rightarrow> string list \<times> string list" where
  "extract_entities text = (findall_marked CHR ''@'' text, findall_marked CHR ''#'' text)"

text \<open>\<^verbatim>\<open>sep.join(xs)\<close>.\<close>

fun join :: "string \<Rightarrow> string list \<Rightarrow> string" where
  "join sep [] = []"
| "join sep [x] = x"
| "join sep (x # y # ys) = x @ sep @ join sep (y # ys)"

text \<open>
  How an f-string renders a value that is a string or \<^verbatim>\<open>None\<close>.
\<close>

definition format_value :: "string option \<Rightarrow> string" where
  "format_value v = (case v of None \<Rightarrow> ''None'' | Some s \<Rightarrow> s)"

text \<open>
  \<^verbatim>\<open>hashlib.md5(base.encode()).hexdigest()\<close> is a function of the text \<open>base\<close>; the
  digest function is the parameter \<open>md5\<close>.
\<close>

definition get_tweet_hash :: "(string \<Rightarrow> 'h) \<Rightarrow> string \<Rightarrow> string option \<Rightarrow> string \<Rightarrow> 'h" where
  "get_tweet_hash md5 username timestamp content =
     md5 (username @ ''|'' @ format_value timestamp @ ''|'' @ strip content)"

section \<open>scrapper.py: the collector\<close>

text \<open>
  What the browser answers for one part of a container: the call raised, the selector
  matched nothing (\<^verbatim>\<open>None\<close>), or it gave a value.
\<close>

datatype 'a fetched = Raised | Absent | Present 'a

text \<open>
  One \<^verbatim>\<open>article\<close> container as the loop sees it: its inner text (\<open>None\<close> when
  the call raised), the \<^verbatim>\<open>datetime\<close> attribute of its time element (itself
  \<^verbatim>\<open>None\<close> when the element has no such attribute), and the texts of its user name,
  like and retweet spans.
\<close>

record block =
  inner_text :: "string option"
  time_tag :: "string option fetched"
  user_tag :: "string fetched"
  like_span :: "string fetched"
  retweet_span :: "string fetched"

text \<open>
  \<^verbatim>\<open>await x.f() if x else d\<close>: \<open>None\<close> when a call raised.
\<close>

fun fetched_or :: "'a \<Rightarrow> 'a fetched \<Rightarrow> 'a option" where
  "fetched_or d Raised = None"
| "fetched_or d Absent = Some d"
| "fetched_or d (Present v) = Some v"

fun map_fetched :: "('a \<Rightarrow> 'b) \<Rightarrow> 'a fetched \<Rightarrow> 'b fetched" where
  "map_fetched f Raised = Raised"
| "map_fetched f Absent = Absent"
| "map_fetched f (Present v) = Present (f v)"

text \<open>The values read from one container before its hash is taken.\<close>

record candidate =
  c_username :: string
  c_timestamp :: "string option"
  c_content :: string
  c_likes :: int
  c_retweets :: int

text \<open>
  The first part of the \<^verbatim>\<open>try\<close> body of the loop over containers, up to the call of
  \<^verbatim>\<open>extract_entities\<close>: \<open>None\<close> when the container is left by \<^verbatim>\<open>continue\<close>,
  because its text is blank or because a call raised.
\<close>

definition extract_block :: "block \<Rightarrow> candidate option" where
  "extract_block b =
     (case inner_text b of
        None \<Rightarrow> None
      | Some content \<Rightarrow>
          if strip content = [] then None
          else
            (case fetched_or (Some ''N/A'') (time_tag b) of
               None \<Rightarrow> None
             | Some timestamp \<Rightarrow>
                 (case fetched_or ''N/A'' (user_tag b) of
                    None \<Rightarrow> None
                  | Some username \<Rightarrow>
                      (case fetched_or 0 (map_fetched parse_count (like_span b)) of
                         None \<Rightarrow> None
                       | Some likes \<Rightarrow>
                           (case fetched_or 0 (map_fetched parse_count (retweet_span b)) of
                              None \<Rightarrow> None
                            | Some retweets \<Rightarrow>
                                Some \<lparr>c_username = username, c_timestamp = timestamp,
                                      c_content = content, c_likes = likes,
                                      c_retweets = retweets\<rparr>)))))"

record tweet =
  hashtag :: string
  username :: string
  timestamp :: "string option"
  content :: string
  likes :: int
  retweets :: int
  mentions :: string
  hashtags :: string

definition make_tweet :: "string \<Rightarrow> candidate \<Rightarrow> tweet" where
  "make_tweet tag c =
     \<lparr>hashtag = tag,
      username = c_username c,
      timestamp = c_timestamp c,
      content = replace_char (CHR 0x0A) CHR '' '' (c_content c),
      likes = c_likes c,
      retweets = c_retweets c,
      mentions = join '', '' (fst (extract_entities (c_content c))),
      hashtags = join '', '' (snd (extract_entities (c_content c)))\<rparr>"

definition candidate_hash :: "(string \<Rightarrow> 'h) \<Rightarrow> candidate \<Rightarrow> 'h" where
  "candidate_hash md5 c = get_tweet_hash md5 (c_username c) (c_timestamp c) (c_content c)"

text \<open>
  The loop over the containers of one scroll, on the state \<open>(tweets_data, seen_hashes)\<close>.
  The flag of the result is true when the function returned from inside the loop.
\<close>

fun collect_blocks ::
  "(string \<Rightarrow> 'h) \<Rightarrow> string \<Rightarrow> int \<Rightarrow> block list \<Rightarrow> tweet list \<times> 'h set
     \<Rightarrow> bool \<times> tweet list \<times> 'h set" where
  "collect_blocks md5 tag max_tweets [] (tweets_data, seen_hashes) =
     (False, tweets_data, seen_hashes)"
| "collect_blocks md5 tag max_tweets (b # bs) (tweets_data, seen_hashes) =
     (case extract_block b of
        None \<Rightarrow> collect_blocks md5 tag max_tweets bs (tweets_data, seen_hashes)
      | Some c \<Rightarrow>
          if candidate_hash md5 c \<in> seen_hashes
          then collect_blocks md5 tag max_tweets bs (tweets_data, seen_hashes)
          else if max_tweets \<le> int (length (tweets_data @ [make_tweet tag c]))
          then (True, tweets_data @ [make_tweet tag c], insert (candidate_hash md5 c) seen_hashes)
          else collect_blocks md5 tag max_tweets bs
                 (tweets_data @ [make_tweet tag c], insert (candidate_hash md5 c) seen_hashes))"

text \<open>
  What one scroll gives: the scroll, the wait or the query raised, or the containers that
  are visible afterwards.
\<close>

datatype view = ScrollRaised | Visible "block list"

text \<open>
  The loop over the scrolls. An exception of a scroll leaves the function (\<open>None\<close>);
  the hashes added so far stay in the caller's set.
\<close>

fun scroll_loop ::
  "(string \<Rightarrow> 'h) \<Rightarrow> string \<Rightarrow> int \<Rightarrow> view list \<Rightarrow> tweet list \<times> 'h set
     \<Rightarrow> tweet list option \<times> 'h set" where
  "scroll_loop md5 tag max_tweets [] (tweets_data, seen_hashes) =
     (Some tweets_data, seen_hashes)"
| "scroll_loop md5 tag max_tweets (ScrollRaised # vs) (tweets_data, seen_hashes) =
     (None, seen_hashes)"
| "scroll_loop md5 tag max_tweets (Visible bs # vs) (tweets_data, seen_hashes) =
     (case collect_blocks md5 tag max_tweets bs (tweets_data, seen_hashes) of
        (True, tweets_data', seen_hashes') \<Rightarrow> (Some tweets_data', seen_hashes')
      | (False, tweets_data', seen_hashes') \<Rightarrow>
          scroll_loop md5 tag max_tweets vs (tweets_data', seen_hashes'))"

text \<open>
  \<open>page k\<close> is what the page gives on scroll number \<open>k\<close> of this call. The result is
  the returned list (\<open>None\<close> when an exception left the function) and the set of
  hashes afterwards.
\<close>

definition scroll_and_collect_tweets ::
  "(string \<Rightarrow> 'h) \<Rightarrow> (nat \<Rightarrow> view) \<Rightarrow> string \<Rightarrow> 'h set \<Rightarrow> int \<Rightarrow> int
     \<Rightarrow> tweet list option \<times> 'h set" where
  "scroll_and_collect_tweets md5 page tag seen_hashes max_tweets max_scrolls =
     scroll_loop md5 tag max_tweets (map page [0..<nat max_scrolls]) ([], seen_hashes)"

text \<open>
  The loop over the tags of \<^verbatim>\<open>scrape_multiple_tags\<close>. Each tag comes with what the
  session shows for it: \<open>None\<close> when the navigation raised, a page otherwise. An
  exception for one tag is caught and the loop goes on to the next tag.
\<close>

fun tags_loop ::
  "(string \<Rightarrow> 'h) \<Rightarrow> int \<Rightarrow> int \<Rightarrow> (string \<times> (nat \<Rightarrow> view) option) list
     \<Rightarrow> tweet list \<times> 'h set \<Rightarrow> tweet list \<times> 'h set" where
  "tags_loop md5 max_tweets max_scrolls [] (all_data, seen_hashes) = (all_data, seen_hashes)"
| "tags_loop md5 max_tweets max_scrolls ((tag, None) # rest) (all_data, seen_hashes) =
     tags_loop md5 max_tweets max_scrolls rest (all_data, seen_hashes)"
| "tags_loop md5 max_tweets max_scrolls ((tag, Some page) # rest) (all_data, seen_hashes) =
     (case scroll_and_collect_tweets md5 page tag seen_hashes max_tweets max_scrolls of
        (None, seen_hashes') \<Rightarrow>
          tags_loop md5 max_tweets max_scrolls rest (all_data, seen_hashes')
      | (Some tag_data, seen_hashes') \<Rightarrow>
          tags_loop md5 max_tweets max_scrolls rest (all_data @ tag_data, seen_hashes'))"

definition collect_all ::
  "(string \<Rightarrow> 'h) \<Rightarrow> int \<Rightarrow> int \<Rightarrow> (string \<times> (nat \<Rightarrow> view) option) list \<Rightarrow> tweet list" where
  "collect_all md5 max_tweets max_scrolls visits =
     fst (tags_loop md5 max_tweets max_scrolls visits ([], {}))"

text \<open>What a run of \<^verbatim>\<open>scrape_multiple_tags\<close> does once the browser is closed.\<close>

datatype effect =
    LogError string
  | LogInfo string
  | Print string
  | WriteCsv string "tweet list"
  | WriteParquet string "tweet list"

function digits_of :: "nat \<Rightarrow> string" where
  "digits_of n = (if n < 10 then [char_of (48 + n)] else digits_of (n div 10) @ [char_of (48 + n mod 10)])"
  by pat_completeness auto
termination
  by (relation "measure id") auto

declare digits_of.simps [simp del]

text \<open>
  \<^verbatim>\<open>scrape_multiple_tags\<close> after the browser has started: \<open>now\<close> is the text of
  \<^verbatim>\<open>datetime.now().strftime("%Y%m%d_%H%M")\<close>. The function has no
  \<^verbatim>\<open>return\<close> statement: the first component is the \<^verbatim>\<open>None\<close> every call returns,
  the second is what the run logs, prints and writes at its end. The progress lines
  logged inside the loops are left out, and the files are taken to be writable.
\<close>

definition scrape_multiple_tags ::
  "(string \<Rightarrow> 'h) \<Rightarrow> string \<Rightarrow> (string \<times> (nat \<Rightarrow> view) option) list \<Rightarrow> int \<Rightarrow> int
     \<Rightarrow> unit \<times> effect list" where
  "scrape_multiple_tags md5 now visits max_tweets max_scrolls =
     (let all_data = collect_all md5 max_tweets max_scrolls visits
      in if all_data = [] then
           ((), [LogError ''No tweets found.'', Print ''No tweets found across all tags.''])
         else
           (let csv_path = ''data/raw/tweets_'' @ now @ ''.csv'';
                parquet_path = ''data/raw/tweets_'' @ now @ ''.parquet''
            in ((), [WriteCsv csv_path all_data,
                     WriteParquet parquet_path all_data,
                     LogInfo (''Saved '' @ digits_of (length all_data) @ '' tweets to CSV and Parquet.''),
                     Print ([CHR 0x0A] @ '' Saved '' @ digits_of (length all_data) @ '' tweets to:''
                            @ [CHR 0x0A] @ ''- '' @ csv_path @ [CHR 0x0A] @ ''- '' @ parquet_path)])))"

section \<open>What a feed offers\<close>

text \<open>
  The candidates that the containers of a scroll, of a sequence of scrolls and of a whole
  run give, in the order in which the loops meet them. A run pairs each candidate with
  the tag of the search that shows it.
\<close>

definition offered :: "block list \<Rightarrow> candidate list" where
  "offered bs = List.map_filter extract_block bs"

fun offered_in_view :: "view \<Rightarrow> candidate list" where
  "offered_in_view ScrollRaised = []"
| "offered_in_view (Visible bs) = offered bs"

definition offered_in_views :: "view list \<Rightarrow> candidate list" where
  "offered_in_views vs = concat (map offered_in_view vs)"

fun offered_in_visit :: "int \<Rightarrow> string \<times> (nat \<Rightarrow> view) option \<Rightarrow> (string \<times> candidate) list" where
  "offered_in_visit max_scrolls (tag, None) = []"
| "offered_in_visit max_scrolls (tag, Some page) =
     map (Pair tag) (offered_in_views (map page [0..<nat max_scrolls]))"

definition offered_in_run ::
  "int \<Rightarrow> (string \<times> (nat \<Rightarrow> view) option) list \<Rightarrow> (string \<times> candidate) list" where
  "offered_in_run max_scrolls visits = concat (map (offered_in_visit max_scrolls) visits)"

text \<open>A container whose text is empty or only whitespace, and a view without them.\<close>

definition is_blank :: "block \<Rightarrow> bool" where
  "is_blank b = (case inner_text b of None \<Rightarrow> False | Some txt \<Rightarrow> strip txt = [])"

fun without_blank :: "view \<Rightarrow> view" where
  "without_blank ScrollRaised = ScrollRaised"
| "without_blank (Visible bs) = Visible (filter (\<lambda>b. \<not> is_blank b) bs)"

text \<open>Concrete inputs for the examples: a digest that keeps its text, and small feeds.\<close>

definition plain_digest :: "string \<Rightarrow> string" where
  "plain_digest s = s"

definition post_a :: block where
  "post_a = \<lparr>inner_text = Some ''Nifty breakout @desk #nifty50'',
             time_tag = Present (Some ''2025-08-01T09:15:00.000Z''),
             user_tag = Present ''Trader A'',
             like_span = Present ''1.2K'',
             retweet_span = Absent\<rparr>"

definition post_b :: block where
  "post_b = \<lparr>inner_text = Some ''Bank Nifty may fall'',
             time_tag = Present (Some ''2025-08-01T09:20:00.000Z''),
             user_tag = Present ''Trader B'',
             like_span = Present ''7'',
             retweet_span = Present ''3''\<rparr>"

definition post_blank :: block where
  "post_blank = \<lparr>inner_text = Some '' '',
                 time_tag = Present (Some ''2025-08-01T09:25:00.000Z''),
                 user_tag = Present ''Trader C'',
                 like_span = Absent,
                 retweet_span = Absent\<rparr>"

definition tweet_a :: tweet where
  "tweet_a = \<lparr>hashtag = ''#nifty50'', username = ''Trader A'',
              timestamp = Some ''2025-08-01T09:15:00.000Z'',
              content = ''Nifty breakout @desk #nifty50'',
              likes = 1200, retweets = 0, mentions = ''@desk'', hashtags = ''#nifty50''\<rparr>"

definition tweet_b :: tweet where
  "tweet_b = \<lparr>hashtag = ''#nifty50'', username = ''Trader B'',
              timestamp = Some ''2025-08-01T09:20:00.000Z'',
              content = ''Bank Nifty may fall'',
              likes = 7, retweets = 3, mentions = [], hashtags = []\<rparr>"

definition hash_a :: string where
  "hash_a = ''Trader A|2025-08-01T09:15:00.000Z|Nifty breakout @desk #nifty50''"

definition hash_b :: string where
  "hash_b = ''Trader B|2025-08-01T09:20:00.000Z|Bank Nifty may fall''"

definition page_ab :: "nat \<Rightarrow> view" where
  "page_ab k = Visible [post_a, post_blank, post_b, post_a]"

text \<open>
  Two containers of one author and one time whose texts differ in one character, a line
  break in the first and a space in the second, and the record both of them give.
\<close>

definition post_two_lines :: block where
  "post_two_lines = \<lparr>inner_text = Some (''Nifty up'' @ [CHR 0x0A] @ ''today''),
                     time_tag = Present (Some ''2025-08-01T09:15:00.000Z''),
                     user_tag = Present ''Trader A'',
                     like_span = Absent,
                     retweet_span = Absent\<rparr>"

definition post_one_line :: block where
  "post_one_line = \<lparr>inner_text = Some ''Nifty up today'',
                    time_tag = Present (Some ''2025-08-01T09:15:00.000Z''),
                    user_tag = Present ''Trader A'',
                    like_span = Absent,
                    retweet_span = Absent\<rparr>"

definition page_lines :: "nat \<Rightarrow> view" where
  "page_lines k = Visible [post_two_lines, post_one_line]"

definition tweet_up :: tweet where
  "tweet_up = \<lparr>hashtag = ''#nifty50'', username = ''Trader A'',
               timestamp = Some ''2025-08-01T09:15:00.000Z'',
               content = ''Nifty up today'',
               likes = 0, retweets = 0, mentions = [], hashtags = []\<rparr>"

section \<open>signals.py\<close>

text \<open>The float literals \<^verbatim>\<open>0.65\<close> and \<^verbatim>\<open>0.35\<close>.\<close>

definition buy_threshold :: rat where
  "buy_threshold = fl (65 / 100)"

definition sell_threshold :: rat where
  "sell_threshold = fl (35 / 100)"

definition buy_keywords :: "string list" where
  "buy_keywords = [''buy'', ''bullish'', ''long'', ''breakout'', ''target'', ''support'']"

definition sell_keywords :: "string list" where
  "sell_keywords = [''sell'', ''bearish'', ''short'', ''resistance'', ''fall'', ''downside'']"

text \<open>\<^verbatim>\<open>sum(word in text for word in keywords)\<close>: each keyword counts once.\<close>

definition keyword_hits :: "string list \<Rightarrow> string \<Rightarrow> nat" where
  "keyword_hits keywords text = length (filter (\<lambda>word. py_in word text) keywords)"

definition classify_sentiment :: "string \<Rightarrow> string" where
  "classify_sentiment text =
     (let text = lower text;
          buy_score = keyword_hits buy_keywords text;
          sell_score = keyword_hits sell_keywords text
      in if buy_score > sell_score then ''buy''
         else if sell_score > buy_score then ''sell''
         else ''neutral'')"

text \<open>
  Float arithmetic: the exact result, rounded. The values of the aggregation are far
  inside the range of binary64, so no infinity arises there.
\<close>

definition fadd :: "rat \<Rightarrow> rat \<Rightarrow> rat" where
  "fadd x y = fl (x + y)"

definition fmul :: "rat \<Rightarrow> rat \<Rightarrow> rat" where
  "fmul x y = fl (x * y)"

definition fdiv :: "rat \<Rightarrow> rat \<Rightarrow> rat" where
  "fdiv x y = fl (x / y)"

text \<open>
  \<^verbatim>\<open>round(x, n)\<close> for a float: the multiple of \<open>10\<^sup>-\<^sup>n\<close> nearest to the value of
  \<open>x\<close>, ties to the even multiple, as a float.
\<close>

definition py_round :: "rat \<Rightarrow> nat \<Rightarrow> rat" where
  "py_round x n = fl (of_int (round_half_even (x * 10 ^ n)) / 10 ^ n)"

text \<open>
  A group is the list of the rows of one day; of each row the function reads the columns
  \<^verbatim>\<open>sentiment\<close> and \<^verbatim>\<open>keyword_score\<close>, here the two components of a pair.
\<close>

record daily_signal =
  tweet_volume :: int
  buy_pct :: rat
  sell_pct :: rat
  neutral_pct :: rat
  avg_keyword_score :: rat
  composite_score :: rat
  signal :: string
  confidence_pct :: rat

text \<open>\<^verbatim>\<open>(group['sentiment'] == s).sum()\<close>.\<close>

definition count_sentiment :: "string \<Rightarrow> (string \<times> int) list \<Rightarrow> int" where
  "count_sentiment s grp = int (length (filter (\<lambda>row. fst row = s) grp))"

text \<open>
  \<^verbatim>\<open>group["keyword_score"].mean()\<close>: the sum of the scores, exact for sums below
  \<open>2\<^sup>5\<^sup>3\<close>, divided by their number.
\<close>

definition mean_keyword_score :: "(string \<times> int) list \<Rightarrow> rat" where
  "mean_keyword_score grp =
     fdiv (of_int (sum_list (map snd grp))) (of_int (int (length grp)))"

text \<open>The local variable \<^verbatim>\<open>score\<close> of \<^verbatim>\<open>compute_aggregated_signals\<close>.\<close>

definition score :: "(string \<times> int) list \<Rightarrow> rat" where
  "score grp =
     (let total = int (length grp);
          buy_pct = fdiv (of_int (count_sentiment ''buy'' grp)) (of_int total);
          avg_keyword = mean_keyword_score grp
      in fadd (fadd (fmul (fl (5 / 10)) buy_pct) (fmul (fl (3 / 10)) (fdiv avg_keyword 5)))
              (fmul (fl (2 / 10)) (min (fdiv (of_int total) 500) 1)))"

definition compute_aggregated_signals :: "(string \<times> int) list \<Rightarrow> daily_signal" where
  "compute_aggregated_signals grp =
     (let total = int (length grp)
      in if total = 0 then
           \<lparr>tweet_volume = 0, buy_pct = 0, sell_pct = 0, neutral_pct = 0,
            avg_keyword_score = 0, composite_score = 0, signal = ''neutral'',
            confidence_pct = 0\<rparr>
         else
           (let buy = count_sentiment ''buy'' grp;
                sell = count_sentiment ''sell'' grp;
                neutral = count_sentiment ''neutral'' grp;
                buy_pct = fdiv (of_int buy) (of_int total);
                sell_pct = fdiv (of_int sell) (of_int total);
                neutral_pct = fdiv (of_int neutral) (of_int total);
                avg_keyword = mean_keyword_score grp;
                score = score grp;
                signal = (if score > buy_threshold then ''buy''
                          else if score < sell_threshold then ''sell''
                          else ''neutral'');
                confidence = py_round (fmul score 100) 1
            in \<lparr>tweet_volume = total,
                buy_pct = py_round buy_pct 3,
                sell_pct = py_round sell_pct 3,
                neutral_pct = py_round neutral_pct 3,
                avg_keyword_score = py_round avg_keyword 2,
                composite_score = py_round score 3,
                signal = signal,
                confidence_pct = confidence\<rparr>))"

text \<open>A row of the input table: the columns the aggregation reads.\<close>

record scored_post =
  post_content :: string
  post_timestamp :: string
  keyword_score :: int

text \<open>
  The rows that \<^verbatim>\<open>df[df["datetime"].notna()]\<close> keeps, each with its parsed time.
  \<open>to_datetime\<close> is \<^verbatim>\<open>pd.to_datetime(column, errors="coerce")\<close>: it gives one value
  for each entry of the column, \<open>None\<close> (\<^verbatim>\<open>NaT\<close>) where the entry does not parse.
\<close>

definition parsed_rows ::
  "(string list \<Rightarrow> 't option list) \<Rightarrow> scored_post list \<Rightarrow> (scored_post \<times> 't) list" where
  "parsed_rows to_datetime df =
     concat (map (\<lambda>(row, dt). case dt of None \<Rightarrow> [] | Some t \<Rightarrow> [(row, t)])
               (zip df (to_datetime (map post_timestamp df))))"

text \<open>
  \<^verbatim>\<open>df.groupby("date").apply(compute_aggregated_signals).reset_index()\<close>: one row for
  each date that occurs, in increasing order of the dates. \<open>date_of\<close> is
  \<^verbatim>\<open>.dt.date\<close>.
\<close>

definition group_of ::
  "('t \<Rightarrow> 'd) \<Rightarrow> (scored_post \<times> 't) list \<Rightarrow> 'd \<Rightarrow> (string \<times> int) list" where
  "group_of date_of kept d =
     map (\<lambda>(row, t). (classify_sentiment (post_content row), keyword_score row))
       (filter (\<lambda>(row, t). date_of t = d) kept)"

definition aggregate ::
  "('t \<Rightarrow> 'd::linorder) \<Rightarrow> (scored_post \<times> 't) list \<Rightarrow> ('d \<times> daily_signal) list" where
  "aggregate date_of kept =
     map (\<lambda>d. (d, compute_aggregated_signals (group_of date_of kept d)))
       (sort (remdups (map (\<lambda>(row, t). date_of t) kept)))"

text \<open>
  \<^verbatim>\<open>main\<close>: \<open>None\<close> for the table when the input file is missing, and then nothing
  is written.
\<close>

definition main ::
  "(string list \<Rightarrow> 't option list) \<Rightarrow> ('t \<Rightarrow> 'd::linorder) \<Rightarrow> scored_post list option
     \<Rightarrow> ('d \<times> daily_signal) list option" where
  "main to_datetime date_of input =
     (case input of
        None \<Rightarrow> None
      | Some df \<Rightarrow> Some (aggregate date_of (parsed_rows to_datetime df)))"

text \<open>
  Groups for the examples, as pairs of sentiment and keyword score: one whose score is
  the float 0.65, one whose score is the float 0.35, one whose score lies just above 0.65
  and is rounded to it, and the three posts of one day with sentiments buy, buy, neutral
  and keyword scores 2, 1, 0.
\<close>

definition group_on_buy_threshold :: "(string \<times> int) list" where
  "group_on_buy_threshold =
     [(''buy'', 5), (''buy'', 5), (''buy'', 5), (''buy'', 5), (''buy'', 5), (''buy'', 5),
      (''buy'', 5), (''buy'', 5), (''neutral'', 1), (''sell'', 0)]"

definition group_on_sell_threshold :: "(string \<times> int) list" where
  "group_on_sell_threshold =
     [(''buy'', 2), (''buy'', 1), (''buy'', 1), (''sell'', 0), (''neutral'', 0)]"

definition group_rounded_to_threshold :: "(string \<times> int) list" where
  "group_rounded_to_threshold =
     [(''buy'', 3), (''buy'', 3), (''buy'', 3), (''buy'', 3), (''buy'', 2), (''buy'', 2),
      (''buy'', 2), (''buy'', 2), (''buy'', 2)]"

definition group_example :: "(string \<times> int) list" where
  "group_example = [(''buy'', 2), (''buy'', 1), (''neutral'', 0)]"

text \<open>
  A small input table, and a reader of timestamps of the form
  \<^verbatim>\<open>2025-08-01T09:15:00\<close> for it, which stands in for \<^verbatim>\<open>pd.to_datetime\<close> on
  this table: the parsed time is the day as a number and the time of day, the date is the
  day, and any other text does not parse.
\<close>

definition row_breakout :: scored_post where
  "row_breakout = \<lparr>post_content = ''Nifty breakout, target 20000'',
                   post_timestamp = ''2025-08-01T09:15:00'', keyword_score = 2\<rparr>"

definition row_closed :: scored_post where
  "row_closed = \<lparr>post_content = ''Go long before the close'',
                 post_timestamp = ''N/A'', keyword_score = 1\<rparr>"

definition row_long :: scored_post where
  "row_long = \<lparr>post_content = ''Go long'',
               post_timestamp = ''2025-08-01T10:30:00'', keyword_score = 1\<rparr>"

definition row_bell :: scored_post where
  "row_bell = \<lparr>post_content = ''Opening bell'',
               post_timestamp = ''2025-08-01T11:00:00'', keyword_score = 0\<rparr>"

definition row_fall :: scored_post where
  "row_fall = \<lparr>post_content = ''Bank Nifty may fall'',
               post_timestamp = ''2025-07-31T15:00:00'', keyword_score = - 1\<rparr>"

definition example_rows :: "scored_post list" where
  "example_rows = [row_breakout, row_closed, row_long, row_bell, row_fall]"

definition example_time :: "string \<Rightarrow> (int \<times> string) option" where
  "example_time s =
     (if length s = 19
      then map_option (\<lambda>day. (day, drop 11 s)) (py_int (remove_char CHR ''-'' (take 10 s)))
      else None)"

definition example_to_datetime :: "string list \<Rightarrow> (int \<times> string) option list" where
  "example_to_datetime column = map example_time column"

text \<open>
  The specification's reading of a hit: a keyword is hit when some contiguous part of
  the body equals it up to the case of letters. Two characters are the same letter when
  they are equal or one is a capital letter and the other its small letter.
  \<open>spec_hits\<close> counts the keywords hit.
\<close>

definition is_capital :: "char \<Rightarrow> bool" where
  "is_capital c =
     (let n = (of_char c :: int)
      in (65 \<le> n \<and> n \<le> 90) \<or> (192 \<le> n \<and> n \<le> 214) \<or> (216 \<le> n \<and> n \<le> 222))"

definition same_letter :: "char \<Rightarrow> char \<Rightarrow> bool" where
  "same_letter c d =
     (c = d \<or> (is_capital c \<and> (of_char d :: int) = of_char c + 32)
            \<or> (is_capital d \<and> (of_char c :: int) = of_char d + 32))"

definition occurs_ignoring_case :: "string \<Rightarrow> string \<Rightarrow> bool" where
  "occurs_ignoring_case k body = (\<exists>p w s. body = p @ w @ s \<and> list_all2 same_letter w k)"

definition spec_hits :: "string list \<Rightarrow> string \<Rightarrow> nat" where
  "spec_hits keywords body = card {k. k \<in> set keywords \<and> occurs_ignoring_case k body}"

text \<open>A float that is not below zero (a NaN counts, an infinity by its sign).\<close>

fun float_nonneg :: "pyfloat \<Rightarrow> bool" where
  "float_nonneg (Finite x) = (0 \<le> x)"
| "float_nonneg NegInf = False"
| "float_nonneg _ = True"

section \<open>Facts about the string functions\<close>

lemma starts_with_iff: "starts_with w t \<longleftrightarrow> (\<exists>s. t = w @ s)"
  by (induction w t rule: starts_with.induct) auto

lemma py_in_iff: "py_in w t \<longleftrightarrow> (\<exists>p s. t = p @ w @ s)"
proof (induction t)
  case Nil
  then show ?case by auto
next
  case (Cons d t)
  show ?case
  proof
    assume "py_in w (d # t)"
    then consider "starts_with w (d # t)" | "py_in w t" by auto
    then show "\<exists>p s. d # t = p @ w @ s"
    proof cases
      case 1
      then obtain s where "d # t = w @ s" by (auto simp: starts_with_iff)
      then have "d # t = [] @ w @ s" by simp
      then show ?thesis by blast
    next
      case 2
      with Cons obtain p s where "t = p @ w @ s" by auto
      then have "d # t = (d # p) @ w @ s" by simp
      then show ?thesis by blast
    qed
  next
    assume "\<exists>p s. d # t = p @ w @ s"
    then obtain p s where eq: "d # t = p @ w @ s" by auto
    show "py_in w (d # t)"
    proof (cases p)
      case Nil
      with eq have "starts_with w (d # t)" by (auto simp: starts_with_iff)
      then show ?thesis by simp
    next
      case (Cons e p')
      with eq have "t = p' @ w @ s" by simp
      with Cons.IH have "py_in w t" by blast
      then show ?thesis by simp
    qed
  qed
qed

lemma lower_char_same_letter:
  assumes "\<not> is_capital d"
  shows "lower_char c = d \<longleftrightarrow> same_letter c d"
proof (cases "is_capital c")
  case True
  then have r: "0 \<le> (of_char c :: int) + 32" "(of_char c :: int) + 32 < 256"
    by (auto simp: is_capital_def Let_def)
  have "lower_char c = char_of ((of_char c :: int) + 32)"
    using True by (simp add: lower_char_def is_capital_def Let_def)
  moreover have "char_of ((of_char c :: int) + 32) = d \<longleftrightarrow> (of_char d :: int) = of_char c + 32"
    using r by (auto simp: char_of_eq_iff take_bit_int_eq_self)
  moreover have "c \<noteq> d" using True assms by auto
  ultimately show ?thesis
    using True assms by (simp add: same_letter_def)
next
  case False
  then have "lower_char c = c"
    by (auto simp: lower_char_def is_capital_def Let_def)
  with False assms show ?thesis by (auto simp: same_letter_def)
qed

lemma lower_same_letters:
  "list_all (\<lambda>d. \<not> is_capital d) k \<Longrightarrow> lower w = k \<longleftrightarrow> list_all2 same_letter w k"
proof (induction w arbitrary: k)
  case Nil
  then show ?case by (auto simp: lower_def)
next
  case (Cons c w)
  show ?case
  proof (cases k)
    case Nil
    then show ?thesis by (simp add: lower_def)
  next
    case (Cons d k')
    with Cons.prems have d: "\<not> is_capital d" and k': "list_all (\<lambda>d. \<not> is_capital d) k'"
      by simp_all
    from Cons.IH [OF k'] have "lower w = k' \<longleftrightarrow> list_all2 same_letter w k'" .
    with lower_char_same_letter [OF d, of c] Cons show ?thesis
      by (simp add: lower_def)
  qed
qed

lemma py_in_lower_iff:
  assumes "list_all (\<lambda>d. \<not> is_capital d) k"
  shows "py_in k (lower body) \<longleftrightarrow> occurs_ignoring_case k body"
proof
  assume "py_in k (lower body)"
  then obtain p s where "map lower_char body = p @ (k @ s)"
    by (auto simp: py_in_iff lower_def)
  then have "\<exists>us vs. body = us @ vs \<and> p = map lower_char us \<and> k @ s = map lower_char vs"
    by (simp add: map_eq_append_conv)
  then obtain p' r where b: "body = p' @ r" and r: "k @ s = map lower_char r"
    by blast
  from r have "\<exists>us vs. r = us @ vs \<and> k = map lower_char us \<and> s = map lower_char vs"
    by (simp add: append_eq_map_conv)
  then obtain w s' where "r = w @ s'" and "lower w = k"
    by (auto simp: lower_def)
  with b assms show "occurs_ignoring_case k body"
    unfolding occurs_ignoring_case_def by (auto simp: lower_same_letters)
next
  assume "occurs_ignoring_case k body"
  then obtain p w s where "body = p @ w @ s" and "list_all2 same_letter w k"
    unfolding occurs_ignoring_case_def by blast
  with assms have "body = p @ w @ s" and "lower w = k"
    by (simp_all add: lower_same_letters)
  then have "lower body = lower p @ k @ lower s"
    by (auto simp: lower_def)
  then show "py_in k (lower body)"
    unfolding py_in_iff by blast
qed

lemma keyword_hits_spec:
  assumes "distinct keywords" and "list_all (list_all (\<lambda>d. \<not> is_capital d)) keywords"
  shows "keyword_hits keywords (lower body) = spec_hits keywords body"
proof -
  have "py_in k (lower body) \<longleftrightarrow> occurs_ignoring_case k body" if "k \<in> set keywords" for k
    using that assms(2) by (intro py_in_lower_iff) (simp add: list_all_iff)
  then have "{k. k \<in> set keywords \<and> occurs_ignoring_case k body}
        = set (filter (\<lambda>word. py_in word (lower body)) keywords)"
    by auto
  moreover have "distinct (filter (\<lambda>word. py_in word (lower body)) keywords)"
    using assms(1) by simp
  ultimately show ?thesis
    unfolding keyword_hits_def spec_hits_def by (metis distinct_card)
qed

lemma distinct_buy_keywords: "distinct buy_keywords"
  by (simp add: buy_keywords_def)

lemma distinct_sell_keywords: "distinct sell_keywords"
  by (simp add: sell_keywords_def)

lemma small_buy_keywords: "list_all (list_all (\<lambda>d. \<not> is_capital d)) buy_keywords"
  by (simp add: buy_keywords_def is_capital_def)

lemma small_sell_keywords: "list_all (list_all (\<lambda>d. \<not> is_capital d)) sell_keywords"
  by (simp add: sell_keywords_def is_capital_def)

lemma classify_sentiment_spec:
  "classify_sentiment b =
     (if spec_hits buy_keywords b > spec_hits sell_keywords b then ''buy''
      else if spec_hits sell_keywords b > spec_hits buy_keywords b then ''sell''
      else ''neutral'')"
  unfolding classify_sentiment_def Let_def
  by (simp only: keyword_hits_spec [OF distinct_buy_keywords small_buy_keywords]
      keyword_hits_spec [OF distinct_sell_keywords small_sell_keywords])

lemmas classify_eval = lower_def lower_char_def Let_def keyword_hits_def
  buy_keywords_def sell_keywords_def

lemma hits_example_1:
  "keyword_hits buy_keywords (lower ''Nifty breakout, target 20000, go long'') = 3"
  "keyword_hits sell_keywords (lower ''Nifty breakout, target 20000, go long'') = 0"
  by code_simp+

lemma hits_example_2:
  "keyword_hits buy_keywords (lower ''SELL on Resistance'') = 0"
  "keyword_hits sell_keywords (lower ''SELL on Resistance'') = 2"
  by code_simp+

lemma hits_example_3:
  "keyword_hits buy_keywords (lower ''Buy or Sell?'') = 1"
  "keyword_hits sell_keywords (lower ''Buy or Sell?'') = 1"
  by code_simp+

subsection \<open>Evaluating numbers\<close>

lemma floor_rat_numeral [simp]: "\<lfloor>numeral a / numeral b :: rat\<rfloor> = numeral a div numeral b"
  by (metis floor_divide_of_int_eq of_int_numeral)

lemma ceiling_rat_numeral [simp]:
  "\<lceil>numeral a / numeral b :: rat\<rceil> = - (- numeral a div numeral b)"
  by (metis ceiling_def floor_divide_of_int_eq minus_divide_left of_int_minus of_int_numeral)

lemma ceiling_neg_rat_numeral [simp]:
  "\<lceil>- (numeral a / numeral b :: rat)\<rceil> = - (numeral a div numeral b)"
  by (simp add: ceiling_def)

lemma floor_neg_rat_numeral [simp]:
  "\<lfloor>- (numeral a / numeral b :: rat)\<rfloor> = - numeral a div numeral b"
  by (metis floor_divide_of_int_eq minus_divide_left of_int_minus of_int_numeral)

lemma bit_length_0 [simp]: "bit_length 0 = 0"
  by (simp add: bit_length.simps)

lemma bit_length_1 [simp]: "bit_length 1 = 1"
  by (simp add: bit_length.simps)

lemma bit_length_numeral [simp]: "bit_length (numeral n) = 1 + bit_length (numeral n div 2)"
  by (subst bit_length.simps) simp

lemmas text_eval = strip_def lstrip_def rstrip_def is_space_def remove_char_def
  is_digit_def digit_val_def digits_value_def lower_def lower_char_def split_first_def
  is_word_char_def Let_def

lemmas num_eval = fl_def to_float_def binary_exponent_def pow2_def pow10_def
  round_half_even_def py_trunc_def Let_def

lemmas parse_count_eval = parse_count_def parse_count_try_def py_float_def py_int_def
  abs_float_value_def number_part_def exponent_part_def

subsection \<open>Text\<close>


lemma set_strip: "set (strip s) \<subseteq> set s"
proof -
  have "set (rstrip t) \<subseteq> set t" for t
    unfolding rstrip_def using set_dropWhileD [of _ is_space "rev t"] by auto
  moreover have "set (lstrip s) \<subseteq> set s"
    unfolding lstrip_def using set_dropWhileD by fastforce
  ultimately show ?thesis unfolding strip_def by blast
qed

lemma remove_char_absent: "c \<notin> set s \<Longrightarrow> remove_char c s = s"
  by (auto simp: remove_char_def filter_id_conv)

lemma remove_char_last: "c \<notin> set p \<Longrightarrow> remove_char c (p @ [c]) = p"
  by (auto simp: remove_char_def filter_id_conv)


subsection \<open>Signs\<close>

lemma pow2_pos: "0 < pow2 e"
  by (simp add: pow2_def)

lemma pow10_pos: "0 < pow10 e"
  by (simp add: pow10_def)

lemma round_half_even_nonneg: "0 \<le> x \<Longrightarrow> 0 \<le> round_half_even x"
  by (auto simp: round_half_even_def Let_def)

lemma fl_nonneg: "0 \<le> x \<Longrightarrow> 0 \<le> fl x"
  by (auto simp: fl_def Let_def pow2_pos less_imp_le intro!: mult_nonneg_nonneg round_half_even_nonneg divide_nonneg_pos)

lemma to_float_nonneg: "0 \<le> x \<Longrightarrow> float_nonneg (to_float x)"
  using fl_nonneg [of x] pow2_pos [of 1024] by (auto simp: to_float_def Let_def)

lemma float_mul_nonneg:
  "float_nonneg f \<Longrightarrow> 0 < c \<Longrightarrow> float_nonneg (float_mul f (Finite c))"
  by (cases f) (auto intro: to_float_nonneg)

lemma int_of_float_nonneg: "float_nonneg f \<Longrightarrow> int_of_float f = Some n \<Longrightarrow> 0 \<le> n"
  by (cases f) (auto simp: py_trunc_def)

lemma digitpart_nonneg: "digitpart s = Some ds \<Longrightarrow> list_all (\<lambda>d. 0 \<le> d) ds"
  by (induction s arbitrary: ds rule: digitpart.induct)
    (auto simp: is_digit_def digit_val_def Let_def split: if_splits option.splits)

lemma foldl_digits_nonneg:
  "0 \<le> a \<Longrightarrow> list_all (\<lambda>d. 0 \<le> d) ds \<Longrightarrow> 0 \<le> foldl (\<lambda>a d. 10 * a + d) (a::int) ds"
  by (induction ds arbitrary: a) auto

lemma digits_value_nonneg: "digitpart s = Some ds \<Longrightarrow> 0 \<le> digits_value ds"
  unfolding digits_value_def by (rule foldl_digits_nonneg) (auto dest: digitpart_nonneg)

lemma py_int_nonneg:
  assumes "py_int s = Some n" and "CHR ''-'' \<notin> set s"
  shows "0 \<le> n"
proof -
  from assms(2) set_strip [of s] have "CHR ''-'' \<notin> set (strip s)" by blast
  with assms(1) show ?thesis
    by (auto simp: py_int_def split: list.splits if_splits dest: digits_value_nonneg)
qed

lemma number_part_nonneg: "number_part s = Some v \<Longrightarrow> 0 \<le> v"
  by (auto simp: number_part_def split: prod.splits option.splits if_splits
      dest!: digits_value_nonneg)

lemma abs_float_value_nonneg: "abs_float_value s = Some f \<Longrightarrow> float_nonneg f"
  by (auto simp: abs_float_value_def less_imp_le pow10_pos
      split: prod.splits option.splits if_splits
      dest!: number_part_nonneg intro!: to_float_nonneg mult_nonneg_nonneg)

lemma py_float_nonneg:
  assumes "py_float s = Some f" and "CHR ''-'' \<notin> set s"
  shows "float_nonneg f"
proof -
  from assms(2) set_strip [of s] have "CHR ''-'' \<notin> set (strip s)" by blast
  with assms(1) show ?thesis
    by (auto simp: py_float_def split: list.splits if_splits dest: abs_float_value_nonneg)
qed

lemma parse_count_try_nonneg:
  assumes "parse_count_try text = Some n" and "CHR ''-'' \<notin> set text"
  shows "0 \<le> n"
proof -
  let ?t = "strip (remove_char CHR '','' text)"
  have t: "CHR ''-'' \<notin> set ?t"
    using assms(2) set_strip [of "remove_char CHR '','' text"] by (auto simp: remove_char_def)
  then have r: "CHR ''-'' \<notin> set (remove_char c ?t)" for c
    by (simp add: remove_char_def)
  from assms(1) show ?thesis
    unfolding parse_count_try_def Let_def
    by (auto split: if_splits option.splits
        dest!: py_float_nonneg [OF _ r] py_int_nonneg [OF _ t]
        dest: int_of_float_nonneg [OF float_mul_nonneg, rotated 2])
qed


section \<open>The count parser\<close>









text \<open>
  C6, as the code has it. The text "-5" is read as the integer -5, so the result can be
  below zero.
\<close>

theorem parse_count_minus_five:
  "parse_count ''-5'' = - 5 \<and> \<not> 0 \<le> parse_count ''-5''"
proof -
  have "parse_count ''-5'' = - 5"
    by (simp add: parse_count_eval text_eval)
  then show ?thesis by simp
qed

text \<open>
  C6, amended. \<open>parse_count\<close> is a total function to the integers (every exception of
  its body is caught and gives 0), and for every text without a minus sign its result is
  not below zero.
\<close>

theorem parse_count_nonneg_without_minus:
  "CHR ''-'' \<notin> set text \<Longrightarrow> 0 \<le> parse_count text"
  unfolding parse_count_def
  by (cases "parse_count_try text") (auto dest: parse_count_try_nonneg)

theorem parse_count_nonneg_without_minus_witness:
  "CHR ''-'' \<notin> set ''1.2K'' \<and> 0 \<le> parse_count ''1.2K''"
proof -
  have h: "CHR ''-'' \<notin> set ''1.2K''" by simp
  from parse_count_nonneg_without_minus [OF h] h show ?thesis by blast
qed

section \<open>The collector\<close>

subsection \<open>What the loops retain\<close>

lemma offered_Cons:
  "offered (b # bs) = (case extract_block b of None \<Rightarrow> offered bs | Some c \<Rightarrow> c # offered bs)"
  by (simp add: offered_def map_filter_simps split: option.splits)

lemma offered_Nil: "offered [] = []"
  by (simp add: offered_def map_filter_simps)

lemma collect_blocks_retained:
  "\<exists>cs. snd (collect_blocks md5 tag mx bs (td, seen))
          = (td @ map (make_tweet tag) cs, seen \<union> candidate_hash md5 ` set cs)
      \<and> subseq cs (offered bs)
      \<and> distinct (map (candidate_hash md5) cs)
      \<and> candidate_hash md5 ` set cs \<inter> seen = {}"
proof (induction bs arbitrary: td seen)
  case Nil
  have "snd (collect_blocks md5 tag mx [] (td, seen))
          = (td @ map (make_tweet tag) [], seen \<union> candidate_hash md5 ` set [])" by simp
  then show ?case by (metis distinct.simps(1) list.simps(8) subseq_order.order_refl
        image_empty list.set(1) Int_empty_left offered_Nil)
next
  case (Cons b bs)
  show ?case
  proof (cases "extract_block b")
    case None
    from Cons.IH [of td seen] obtain cs where
      "snd (collect_blocks md5 tag mx bs (td, seen))
          = (td @ map (make_tweet tag) cs, seen \<union> candidate_hash md5 ` set cs)"
      "subseq cs (offered bs)" "distinct (map (candidate_hash md5) cs)"
      "candidate_hash md5 ` set cs \<inter> seen = {}" by blast
    with None show ?thesis by (auto simp: offered_Cons)
  next
    case (Some c)
    let ?h = "candidate_hash md5 c"
    show ?thesis
    proof (cases "?h \<in> seen")
      case True
      from Cons.IH [of td seen] obtain cs where
        "snd (collect_blocks md5 tag mx bs (td, seen))
            = (td @ map (make_tweet tag) cs, seen \<union> candidate_hash md5 ` set cs)"
        "subseq cs (offered bs)" "distinct (map (candidate_hash md5) cs)"
        "candidate_hash md5 ` set cs \<inter> seen = {}" by blast
      with Some True show ?thesis
        by (auto simp: offered_Cons intro: subseq_Cons')
    next
      case False
      show ?thesis
      proof (cases "mx \<le> int (length (td @ [make_tweet tag c]))")
        case True
        with Some False have
          "snd (collect_blocks md5 tag mx (b # bs) (td, seen))
             = (td @ map (make_tweet tag) [c], seen \<union> candidate_hash md5 ` set [c])"
          by simp
        moreover have "subseq [c] (offered (b # bs))"
          using Some by (simp add: offered_Cons)
        moreover have "distinct (map (candidate_hash md5) [c])" by simp
        moreover have "candidate_hash md5 ` set [c] \<inter> seen = {}" using False by simp
        ultimately show ?thesis by blast
      next
        case cont: False
        from Cons.IH [of "td @ [make_tweet tag c]" "insert ?h seen"] obtain cs where
          r: "snd (collect_blocks md5 tag mx bs (td @ [make_tweet tag c], insert ?h seen))
              = ((td @ [make_tweet tag c]) @ map (make_tweet tag) cs,
                 insert ?h seen \<union> candidate_hash md5 ` set cs)"
          and s: "subseq cs (offered bs)" and d: "distinct (map (candidate_hash md5) cs)"
          and i: "candidate_hash md5 ` set cs \<inter> insert ?h seen = {}" by blast
        from Some False cont r have
          "snd (collect_blocks md5 tag mx (b # bs) (td, seen))
             = (td @ map (make_tweet tag) (c # cs), seen \<union> candidate_hash md5 ` set (c # cs))"
          by simp
        moreover have "subseq (c # cs) (offered (b # bs))"
          using Some s by (simp add: offered_Cons)
        moreover have "distinct (map (candidate_hash md5) (c # cs))"
          using d i by auto
        moreover have "candidate_hash md5 ` set (c # cs) \<inter> seen = {}"
          using False i by auto
        ultimately show ?thesis by blast
      qed
    qed
  qed
qed


lemma collect_blocks_retainedE:
  obtains flag cs where
    "collect_blocks md5 tag mx bs (td, seen)
       = (flag, td @ map (make_tweet tag) cs, seen \<union> candidate_hash md5 ` set cs)"
    "subseq cs (offered bs)"
    "distinct (map (candidate_hash md5) cs)"
    "candidate_hash md5 ` set cs \<inter> seen = {}"
proof -
  from collect_blocks_retained [of md5 tag mx bs td seen] obtain cs where
    s: "snd (collect_blocks md5 tag mx bs (td, seen))
          = (td @ map (make_tweet tag) cs, seen \<union> candidate_hash md5 ` set cs)"
    and r: "subseq cs (offered bs)" "distinct (map (candidate_hash md5) cs)"
      "candidate_hash md5 ` set cs \<inter> seen = {}" by blast
  from s have "collect_blocks md5 tag mx bs (td, seen)
       = (fst (collect_blocks md5 tag mx bs (td, seen)),
          td @ map (make_tweet tag) cs, seen \<union> candidate_hash md5 ` set cs)"
    by (metis prod.collapse)
  with r that show thesis by blast
qed

lemma scroll_loop_retained:
  "\<exists>cs. snd (scroll_loop md5 tag mx vs (td, seen)) = seen \<union> candidate_hash md5 ` set cs
      \<and> (case fst (scroll_loop md5 tag mx vs (td, seen)) of
            None \<Rightarrow> True
          | Some out \<Rightarrow> out = td @ map (make_tweet tag) cs)
      \<and> subseq cs (offered_in_views vs)
      \<and> distinct (map (candidate_hash md5) cs)
      \<and> candidate_hash md5 ` set cs \<inter> seen = {}"
proof (induction vs arbitrary: td seen)
  case Nil
  have "snd (scroll_loop md5 tag mx [] (td, seen)) = seen \<union> candidate_hash md5 ` set []"
    "case fst (scroll_loop md5 tag mx [] (td, seen)) of
            None \<Rightarrow> True
          | Some out \<Rightarrow> out = td @ map (make_tweet tag) []"
    "subseq [] (offered_in_views [])" "distinct (map (candidate_hash md5) [])"
    "candidate_hash md5 ` set [] \<inter> seen = {}" by simp_all
  then show ?case by blast
next
  case (Cons v vs)
  show ?case
  proof (cases v)
    case ScrollRaised
    then have "snd (scroll_loop md5 tag mx (v # vs) (td, seen)) = seen \<union> candidate_hash md5 ` set []"
      "case fst (scroll_loop md5 tag mx (v # vs) (td, seen)) of
            None \<Rightarrow> True
          | Some out \<Rightarrow> out = td @ map (make_tweet tag) []"
      "subseq [] (offered_in_views (v # vs))" "distinct (map (candidate_hash md5) [])"
      "candidate_hash md5 ` set [] \<inter> seen = {}" by simp_all
    then show ?thesis by blast
  next
    case (Visible bs)
    obtain flag cs where
      c: "collect_blocks md5 tag mx bs (td, seen)
            = (flag, td @ map (make_tweet tag) cs, seen \<union> candidate_hash md5 ` set cs)"
      and s: "subseq cs (offered bs)" and d: "distinct (map (candidate_hash md5) cs)"
      and i: "candidate_hash md5 ` set cs \<inter> seen = {}"
      by (rule collect_blocks_retainedE)
    show ?thesis
    proof (cases flag)
      case True
      with Visible c have
        "snd (scroll_loop md5 tag mx (v # vs) (td, seen)) = seen \<union> candidate_hash md5 ` set cs"
        "case fst (scroll_loop md5 tag mx (v # vs) (td, seen)) of
            None \<Rightarrow> True
          | Some out \<Rightarrow> out = td @ map (make_tweet tag) cs" by simp_all
      moreover have "subseq cs (offered_in_views (v # vs))"
        using s Visible by (simp add: offered_in_views_def list_emb_prefix)
      ultimately show ?thesis using d i by blast
    next
      case False
      let ?td = "td @ map (make_tweet tag) cs" and ?seen = "seen \<union> candidate_hash md5 ` set cs"
      from Cons.IH [of ?td ?seen] obtain cs' where
        r: "snd (scroll_loop md5 tag mx vs (?td, ?seen)) = ?seen \<union> candidate_hash md5 ` set cs'"
        and o: "case fst (scroll_loop md5 tag mx vs (?td, ?seen)) of
            None \<Rightarrow> True
          | Some out \<Rightarrow> out = ?td @ map (make_tweet tag) cs'"
        and s': "subseq cs' (offered_in_views vs)"
        and d': "distinct (map (candidate_hash md5) cs')"
        and i': "candidate_hash md5 ` set cs' \<inter> ?seen = {}" by blast
      have eq: "scroll_loop md5 tag mx (v # vs) (td, seen) = scroll_loop md5 tag mx vs (?td, ?seen)"
        using Visible c False by simp
      have "snd (scroll_loop md5 tag mx (v # vs) (td, seen))
              = seen \<union> candidate_hash md5 ` set (cs @ cs')"
        using r eq by auto
      moreover have "case fst (scroll_loop md5 tag mx (v # vs) (td, seen)) of
            None \<Rightarrow> True
          | Some out \<Rightarrow> out = td @ map (make_tweet tag) (cs @ cs')"
        using o eq by (auto split: option.splits)
      moreover have "subseq (cs @ cs') (offered_in_views (v # vs))"
        using s s' Visible by (simp add: offered_in_views_def list_emb_append_mono)
      moreover have "distinct (map (candidate_hash md5) (cs @ cs'))"
        using d d' i' by auto
      moreover have "candidate_hash md5 ` set (cs @ cs') \<inter> seen = {}"
        using i i' by auto
      ultimately show ?thesis by blast
    qed
  qed
qed

lemma tags_loop_retained:
  "\<exists>cs. fst (tags_loop md5 mx ms visits (all_data, seen))
            = all_data @ map (\<lambda>(tag, c). make_tweet tag c) cs
      \<and> subseq cs (offered_in_run ms visits)
      \<and> distinct (map (\<lambda>(tag, c). candidate_hash md5 c) cs)
      \<and> (\<lambda>(tag, c). candidate_hash md5 c) ` set cs \<inter> seen = {}"
proof (induction visits arbitrary: all_data seen)
  case Nil
  have "fst (tags_loop md5 mx ms [] (all_data, seen))
            = all_data @ map (\<lambda>(tag, c). make_tweet tag c) []"
    "subseq [] (offered_in_run ms [])"
    "distinct (map (\<lambda>(tag, c). candidate_hash md5 c) [])"
    "(\<lambda>(tag, c). candidate_hash md5 c) ` set [] \<inter> seen = {}" by simp_all
  then show ?case by blast
next
  case (Cons visit visits)
  obtain tag v where visit: "visit = (tag, v)" by (cases visit)
  show ?case
  proof (cases v)
    case None
    from Cons.IH [of all_data seen] obtain cs where
      "fst (tags_loop md5 mx ms visits (all_data, seen))
            = all_data @ map (\<lambda>(tag, c). make_tweet tag c) cs"
      "subseq cs (offered_in_run ms visits)"
      "distinct (map (\<lambda>(tag, c). candidate_hash md5 c) cs)"
      "(\<lambda>(tag, c). candidate_hash md5 c) ` set cs \<inter> seen = {}" by blast
    with None visit show ?thesis by (auto simp: offered_in_run_def)
  next
    case (Some page)
    let ?vs = "map page [0..<nat ms]"
    from scroll_loop_retained [of md5 tag mx ?vs "[]" seen] obtain cs where
      r: "snd (scroll_loop md5 tag mx ?vs ([], seen)) = seen \<union> candidate_hash md5 ` set cs"
      and o: "case fst (scroll_loop md5 tag mx ?vs ([], seen)) of
            None \<Rightarrow> True
          | Some out \<Rightarrow> out = [] @ map (make_tweet tag) cs"
      and s: "subseq cs (offered_in_views ?vs)"
      and d: "distinct (map (candidate_hash md5) cs)"
      and i: "candidate_hash md5 ` set cs \<inter> seen = {}" by blast
    let ?seen = "seen \<union> candidate_hash md5 ` set cs"
    let ?key = "\<lambda>(tag, c). candidate_hash md5 c"
    have pairs: "?key ` set (map (Pair tag) cs) = candidate_hash md5 ` set cs"
      by (auto simp: image_iff)
    have dpairs: "distinct (map ?key (map (Pair tag) cs))"
      using d by (simp add: comp_def)
    have spairs: "subseq (map (Pair tag) cs) (offered_in_visit ms visit)"
      using s visit Some by (simp add: subseq_map)
    show ?thesis
    proof (cases "fst (scroll_loop md5 tag mx ?vs ([], seen))")
      case None
      with r have res: "scroll_and_collect_tweets md5 page tag seen mx ms = (None, ?seen)"
        unfolding scroll_and_collect_tweets_def by (metis prod.collapse)
      from Cons.IH [of all_data ?seen] obtain cs' where
        a: "fst (tags_loop md5 mx ms visits (all_data, ?seen))
            = all_data @ map (\<lambda>(tag, c). make_tweet tag c) cs'"
        and s': "subseq cs' (offered_in_run ms visits)"
        and d': "distinct (map ?key cs')"
        and i': "?key ` set cs' \<inter> ?seen = {}" by blast
      have "fst (tags_loop md5 mx ms (visit # visits) (all_data, seen))
            = all_data @ map (\<lambda>(tag, c). make_tweet tag c) cs'"
        using a res visit Some by simp
      moreover have "subseq cs' (offered_in_run ms (visit # visits))"
        using s' by (simp add: offered_in_run_def list_emb_append2)
      moreover have "?key ` set cs' \<inter> seen = {}" using i' by auto
      ultimately show ?thesis using d' by blast
    next
      case (Some out)
      with o have out: "out = map (make_tweet tag) cs" by simp
      from Some r have res: "scroll_and_collect_tweets md5 page tag seen mx ms = (Some out, ?seen)"
        unfolding scroll_and_collect_tweets_def by (metis prod.collapse)
      from Cons.IH [of "all_data @ out" ?seen] obtain cs' where
        a: "fst (tags_loop md5 mx ms visits (all_data @ out, ?seen))
            = (all_data @ out) @ map (\<lambda>(tag, c). make_tweet tag c) cs'"
        and s': "subseq cs' (offered_in_run ms visits)"
        and d': "distinct (map ?key cs')"
        and i': "?key ` set cs' \<inter> ?seen = {}" by blast
      have "fst (tags_loop md5 mx ms (visit # visits) (all_data, seen))
            = all_data @ map (\<lambda>(tag, c). make_tweet tag c) (map (Pair tag) cs @ cs')"
        using a res visit \<open>v = Some page\<close> out by (simp add: comp_def)
      moreover have "subseq (map (Pair tag) cs @ cs') (offered_in_run ms (visit # visits))"
        using spairs s' by (simp add: offered_in_run_def list_emb_append_mono)
      moreover have "distinct (map ?key (map (Pair tag) cs @ cs'))"
      proof -
        have "?key ` set (map (Pair tag) cs) \<inter> ?key ` set cs' = {}"
          using i' pairs by blast
        then have "set (map ?key (map (Pair tag) cs)) \<inter> set (map ?key cs') = {}"
          by (simp only: set_map)
        with dpairs d' show ?thesis
          by (simp only: map_append distinct_append)
      qed
      moreover have "?key ` set (map (Pair tag) cs @ cs') \<inter> seen = {}"
        using i i' pairs by auto
      ultimately show ?thesis by blast
    qed
  qed
qed


lemma distinct_filter_le_one:
  assumes "distinct (map f xs)" and "\<And>x. P x \<Longrightarrow> f x = k"
  shows "length (filter P xs) \<le> 1"
  using assms(1)
proof (induction xs)
  case Nil
  then show ?case by simp
next
  case (Cons x xs)
  show ?case
  proof (cases "P x")
    case True
    then have "f x = k" by (rule assms(2))
    with Cons.prems have "k \<notin> f ` set xs" by auto
    then have "filter P xs = []"
      using assms(2) by (auto simp: filter_empty_conv image_iff)
    with True show ?thesis by simp
  next
    case False
    with Cons show ?thesis by simp
  qed
qed

lemma extract_lines:
  "extract_block post_two_lines = Some \<lparr>c_username = ''Trader A'',
      c_timestamp = Some ''2025-08-01T09:15:00.000Z'',
      c_content = ''Nifty up'' @ [CHR 0x0A] @ ''today'', c_likes = 0, c_retweets = 0\<rparr>"
  "extract_block post_one_line = Some \<lparr>c_username = ''Trader A'',
      c_timestamp = Some ''2025-08-01T09:15:00.000Z'',
      c_content = ''Nifty up today'', c_likes = 0, c_retweets = 0\<rparr>"
  by (simp_all add: extract_block_def post_two_lines_def post_one_line_def text_eval)

lemma findall_lines:
  "findall_marked CHR ''@'' (''Nifty up'' @ [CHR 0x0A] @ ''today'') = []"
  "findall_marked CHR ''#'' (''Nifty up'' @ [CHR 0x0A] @ ''today'') = []"
  "findall_marked CHR ''@'' ''Nifty up today'' = []"
  "findall_marked CHR ''#'' ''Nifty up today'' = []"
  by (simp_all add: text_eval)

lemma collect_all_lines:
  "collect_all plain_digest 10 1 [(''#nifty50'', Some page_lines)] = [tweet_up, tweet_up]"
  by (simp add: collect_all_def scroll_and_collect_tweets_def page_lines_def extract_lines
      candidate_hash_def get_tweet_hash_def format_value_def plain_digest_def
      make_tweet_def extract_entities_def findall_lines replace_char_def
      tweet_up_def text_eval)

text \<open>
  C2, as the code has it. The hash is taken on the text as extracted, the record keeps the
  text with its line breaks turned into spaces. Two containers of one author and one time
  whose texts differ only in a line break against a space have different hashes, so both
  are retained, and the output holds the same record twice: two records with the same
  author, timestamp and body, and so with the same content hash.
\<close>

theorem collect_all_repeats_a_record:
  "collect_all plain_digest 10 1 [(''#nifty50'', Some page_lines)] = [tweet_up, tweet_up]
   \<and> \<not> distinct (collect_all plain_digest 10 1 [(''#nifty50'', Some page_lines)])"
  by (simp add: collect_all_lines)

text \<open>
  C2, amended. In every run, the records of the output are the records of a subsequence
  of the candidates that the feeds offered, and the hashes that the collector took of
  these retained candidates, on their texts as extracted, are pairwise different. Hence
  of the candidates with one and the same author, timestamp and extracted text, whatever
  the order of the feed, at most one is retained.
\<close>

theorem collect_all_retains_each_candidate_once:
  "\<exists>cs. collect_all md5 max_tweets max_scrolls visits = map (\<lambda>(tag, c). make_tweet tag c) cs
      \<and> subseq cs (offered_in_run max_scrolls visits)
      \<and> distinct (map (\<lambda>(tag, c). candidate_hash md5 c) cs)
      \<and> (\<forall>u t b. length (filter (\<lambda>(tag, c). c_username c = u \<and> c_timestamp c = t
                                          \<and> c_content c = b) cs) \<le> 1)"
proof -
  from tags_loop_retained [of md5 max_tweets max_scrolls visits "[]" "{}"] obtain cs where
    a: "collect_all md5 max_tweets max_scrolls visits = map (\<lambda>(tag, c). make_tweet tag c) cs"
    and s: "subseq cs (offered_in_run max_scrolls visits)"
    and d: "distinct (map (\<lambda>(tag, c). candidate_hash md5 c) cs)"
    unfolding collect_all_def by auto
  have "length (filter (\<lambda>(tag, c). c_username c = u \<and> c_timestamp c = t \<and> c_content c = b) cs) \<le> 1"
    for u t b
    by (rule distinct_filter_le_one [OF d, where k = "get_tweet_hash md5 u t b"])
      (auto simp: candidate_hash_def)
  with a s d show ?thesis by blast
qed

subsection \<open>The cap\<close>

lemma collect_blocks_cap:
  assumes "int (length td) < mx"
    and "collect_blocks md5 tag mx bs (td, seen) = (flag, td', seen')"
  shows "(flag \<longrightarrow> int (length td') = mx) \<and> (\<not> flag \<longrightarrow> int (length td') < mx)"
  using assms
proof (induction bs arbitrary: td seen)
  case Nil
  then show ?case by auto
next
  case (Cons b bs)
  show ?case
  proof (cases "extract_block b")
    case None
    with Cons show ?thesis by simp
  next
    case (Some c)
    show ?thesis
    proof (cases "candidate_hash md5 c \<in> seen")
      case True
      with Some Cons show ?thesis by simp
    next
      case False
      show ?thesis
      proof (cases "mx \<le> int (length (td @ [make_tweet tag c]))")
        case True
        with Some False Cons.prems show ?thesis by auto
      next
        case cont: False
        then have "int (length (td @ [make_tweet tag c])) < mx" by simp
        moreover have "collect_blocks md5 tag mx bs
            (td @ [make_tweet tag c], insert (candidate_hash md5 c) seen) = (flag, td', seen')"
          using Some False cont Cons.prems(2) by simp
        ultimately show ?thesis by (rule Cons.IH)
      qed
    qed
  qed
qed

lemma scroll_loop_cap:
  assumes "int (length td) < mx"
    and "scroll_loop md5 tag mx vs (td, seen) = (Some out, seen')"
  shows "int (length out) \<le> mx"
  using assms
proof (induction vs arbitrary: td seen)
  case Nil
  then show ?case by auto
next
  case (Cons v vs)
  show ?case
  proof (cases v)
    case ScrollRaised
    with Cons.prems show ?thesis by simp
  next
    case (Visible bs)
    obtain flag td1 seen1 where c: "collect_blocks md5 tag mx bs (td, seen) = (flag, td1, seen1)"
      by (metis prod_cases3)
    from collect_blocks_cap [OF Cons.prems(1) c]
    have cap: "(flag \<longrightarrow> int (length td1) = mx) \<and> (\<not> flag \<longrightarrow> int (length td1) < mx)" .
    show ?thesis
    proof (cases flag)
      case True
      with Visible c Cons.prems(2) have "out = td1" by simp
      with cap True show ?thesis by simp
    next
      case False
      with Visible c Cons.prems(2) have "scroll_loop md5 tag mx vs (td1, seen1) = (Some out, seen')"
        by simp
      moreover from cap False have "int (length td1) < mx" by simp
      ultimately show ?thesis by (rule Cons.IH [rotated])
    qed
  qed
qed

lemma scroll_and_collect_tweets_capped:
  assumes "1 \<le> max_tweets"
    and "scroll_and_collect_tweets md5 page tag seen max_tweets max_scrolls = (Some out, seen')"
  shows "int (length out) \<le> max_tweets"
proof -
  from assms(1) have "int (length ([] :: tweet list)) < max_tweets" by simp
  then show ?thesis
    using assms(2) unfolding scroll_and_collect_tweets_def by (rule scroll_loop_cap)
qed

subsection \<open>Blank containers\<close>

lemma strip_eq_Nil_iff: "strip s = [] \<longleftrightarrow> (\<forall>c\<in>set s. is_space c)"
proof
  assume "\<forall>c\<in>set s. is_space c"
  then have "lstrip s = []" by (simp add: lstrip_def)
  then show "strip s = []" by (simp add: strip_def rstrip_def)
next
  assume e: "strip s = []"
  show "\<forall>c\<in>set s. is_space c"
  proof (rule ccontr)
    assume "\<not> (\<forall>c\<in>set s. is_space c)"
    then have n: "lstrip s \<noteq> []" by (auto simp: lstrip_def)
    then have "\<not> is_space (hd (lstrip s))"
      unfolding lstrip_def by (rule hd_dropWhile)
    moreover from n have "hd (lstrip s) \<in> set (rev (lstrip s))" by simp
    ultimately have "dropWhile is_space (rev (lstrip s)) \<noteq> []"
      by (auto simp: dropWhile_eq_Nil_conv)
    with e show False by (simp add: strip_def rstrip_def)
  qed
qed

lemma is_space_newline: "is_space (CHR 0x0A)" and not_space_kept: "\<not> is_space c \<Longrightarrow> c \<noteq> CHR 0x0A"
  by (auto simp: is_space_def)

lemma strip_flattened:
  "strip (replace_char (CHR 0x0A) CHR '' '' s) = [] \<longleftrightarrow> strip s = []"
proof -
  have sp: "is_space CHR '' ''" by (simp add: is_space_def)
  have "is_space (if c = CHR 0x0A then CHR '' '' else c) \<longleftrightarrow> is_space c" for c
    using sp is_space_newline by auto
  then have "(\<forall>c\<in>set (replace_char (CHR 0x0A) CHR '' '' s). is_space c) \<longleftrightarrow> (\<forall>c\<in>set s. is_space c)"
    unfolding replace_char_def by (induction s) simp_all
  then show ?thesis
    by (simp only: strip_eq_Nil_iff)
qed

lemma extract_block_not_blank: "extract_block b = Some c \<Longrightarrow> strip (c_content c) \<noteq> []"
  by (auto simp: extract_block_def split: option.splits if_splits)

lemma offered_not_blank: "c \<in> set (offered bs) \<Longrightarrow> strip (c_content c) \<noteq> []"
  by (auto simp: offered_def map_filter_def dest: extract_block_not_blank)

lemma offered_in_views_not_blank:
  "c \<in> set (offered_in_views vs) \<Longrightarrow> strip (c_content c) \<noteq> []"
proof -
  assume "c \<in> set (offered_in_views vs)"
  then obtain v where "c \<in> set (offered_in_view v)"
    by (auto simp: offered_in_views_def)
  then show ?thesis by (cases v) (auto dest: offered_not_blank)
qed

lemma extract_block_blank: "is_blank b \<Longrightarrow> extract_block b = None"
  by (auto simp: is_blank_def extract_block_def split: option.splits)

lemma collect_blocks_without_blank:
  "collect_blocks md5 tag mx (filter (\<lambda>b. \<not> is_blank b) bs) st = collect_blocks md5 tag mx bs st"
proof (induction bs arbitrary: st)
  case Nil
  then show ?case by simp
next
  case (Cons b bs)
  obtain td seen where st: "st = (td, seen)" by (cases st)
  show ?case
  proof (cases "is_blank b")
    case True
    then show ?thesis using Cons st by (simp add: extract_block_blank)
  next
    case False
    then show ?thesis using Cons st by (simp split: option.splits)
  qed
qed

lemma scroll_loop_without_blank:
  "scroll_loop md5 tag mx (map without_blank vs) st = scroll_loop md5 tag mx vs st"
proof (induction vs arbitrary: st)
  case Nil
  then show ?case by simp
next
  case (Cons v vs)
  obtain td seen where st: "st = (td, seen)" by (cases st)
  show ?case
    using Cons st by (cases v) (simp_all add: collect_blocks_without_blank split: prod.splits bool.splits)
qed


subsection \<open>A run on a small feed\<close>

lemma parse_count_examples:
  "parse_count ''1.2K'' = 1200" "parse_count ''7'' = 7" "parse_count ''3'' = 3"
  by (simp_all add: parse_count_eval text_eval num_eval)

lemma findall_examples:
  "findall_marked CHR ''@'' ''Nifty breakout @desk #nifty50'' = [''@desk'']"
  "findall_marked CHR ''#'' ''Nifty breakout @desk #nifty50'' = [''#nifty50'']"
  "findall_marked CHR ''@'' ''Bank Nifty may fall'' = []"
  "findall_marked CHR ''#'' ''Bank Nifty may fall'' = []"
  by (simp_all add: text_eval)

lemma extract_examples:
  "extract_block post_a = Some \<lparr>c_username = ''Trader A'',
      c_timestamp = Some ''2025-08-01T09:15:00.000Z'',
      c_content = ''Nifty breakout @desk #nifty50'', c_likes = 1200, c_retweets = 0\<rparr>"
  "extract_block post_b = Some \<lparr>c_username = ''Trader B'',
      c_timestamp = Some ''2025-08-01T09:20:00.000Z'',
      c_content = ''Bank Nifty may fall'', c_likes = 7, c_retweets = 3\<rparr>"
  "extract_block post_blank = None"
  by (simp_all add: extract_block_def post_a_def post_b_def post_blank_def
      parse_count_examples text_eval)

lemmas run_eval = scroll_and_collect_tweets_def page_ab_def extract_examples
  candidate_hash_def get_tweet_hash_def format_value_def plain_digest_def
  make_tweet_def extract_entities_def findall_examples replace_char_def
  tweet_a_def tweet_b_def hash_a_def hash_b_def text_eval

lemma run_ab:
  "scroll_and_collect_tweets plain_digest page_ab ''#nifty50'' {} 10 1
     = (Some [tweet_a, tweet_b], {hash_a, hash_b})"
  by (simp add: run_eval insert_commute)

lemma collect_all_ab:
  "collect_all plain_digest 10 1 [(''#nifty50'', Some page_ab)] = [tweet_a, tweet_b]"
  by (simp add: collect_all_def run_ab)

lemma blank_content_examples:
  "strip (content tweet_a) \<noteq> []" "strip (content tweet_b) \<noteq> []"
  by (simp_all add: tweet_a_def tweet_b_def text_eval)

subsection \<open>The claims about the loop of one hashtag\<close>

lemma collect_blocks_returns_at_once:
  "collect_blocks md5 tag mx bs st = (True, td', seen')
   \<Longrightarrow> collect_blocks md5 tag mx (bs @ rest) st = (True, td', seen')"
proof (induction bs arbitrary: st)
  case Nil
  obtain td seen where st: "st = (td, seen)" by (cases st)
  from Nil show ?case unfolding st by simp
next
  case (Cons b bs)
  obtain td seen where st: "st = (td, seen)" by (cases st)
  show ?case
  proof (cases "extract_block b")
    case None
    with Cons.prems st have "collect_blocks md5 tag mx bs st = (True, td', seen')" by simp
    then have "collect_blocks md5 tag mx (bs @ rest) st = (True, td', seen')" by (rule Cons.IH)
    with None st show ?thesis by simp
  next
    case (Some c)
    show ?thesis
    proof (cases "candidate_hash md5 c \<in> seen")
      case True
      with Some Cons.prems st have "collect_blocks md5 tag mx bs st = (True, td', seen')" by simp
      then have "collect_blocks md5 tag mx (bs @ rest) st = (True, td', seen')" by (rule Cons.IH)
      with Some True st show ?thesis by simp
    next
      case False
      show ?thesis
      proof (cases "mx \<le> int (length (td @ [make_tweet tag c]))")
        case True
        with Some False Cons.prems st show ?thesis by auto
      next
        case cont: False
        let ?st = "(td @ [make_tweet tag c], insert (candidate_hash md5 c) seen)"
        from Some False cont Cons.prems st
        have "collect_blocks md5 tag mx bs ?st = (True, td', seen')" by simp
        then have "collect_blocks md5 tag mx (bs @ rest) ?st = (True, td', seen')"
          by (rule Cons.IH)
        with Some False cont st show ?thesis by simp
      qed
    qed
  qed
qed

text \<open>
  C3, at the bound 0. With \<open>max_tweets = 0\<close> and a feed whose first container holds a
  post, the loop appends the post before it compares the length with the bound, and
  returns a list of length 1. (For every bound of at least 1 the returned list is no
  longer than the bound: \<open>scroll_and_collect_tweets_capped\<close>; and the loop over the
  containers returns as soon as the bound is reached:
  \<open>collect_blocks_returns_at_once\<close>.)
\<close>

theorem scroll_and_collect_tweets_bound_zero:
  "fst (scroll_and_collect_tweets plain_digest page_ab ''#nifty50'' {} 0 1) = Some [tweet_a]
   \<and> \<not> int (length [tweet_a]) \<le> 0"
  by (simp add: run_eval)

lemma subseq_member: "subseq xs ys \<Longrightarrow> x \<in> set xs \<Longrightarrow> x \<in> set ys"
  by (erule list_emb_set) auto

lemma retained_not_blank:
  assumes "subseq cs (offered_in_views vs)" and "c \<in> set cs"
  shows "strip (content (make_tweet tag c)) \<noteq> []"
proof -
  from assms have "c \<in> set (offered_in_views vs)" by (rule subseq_member)
  then have "strip (c_content c) \<noteq> []" by (rule offered_in_views_not_blank)
  then show ?thesis by (simp add: make_tweet_def strip_flattened)
qed

lemma scroll_loop_not_blank:
  assumes "scroll_loop md5 tag mx vs ([], seen) = (Some out, seen')" and "t \<in> set out"
  shows "strip (content t) \<noteq> []"
proof -
  from scroll_loop_retained [of md5 tag mx vs "[]" seen] obtain cs where
    o: "case fst (scroll_loop md5 tag mx vs ([], seen)) of
            None \<Rightarrow> True
          | Some out \<Rightarrow> out = [] @ map (make_tweet tag) cs"
    and s: "subseq cs (offered_in_views vs)" by blast
  from o assms(1) have "out = map (make_tweet tag) cs" by simp
  with assms(2) obtain c where "c \<in> set cs" and "t = make_tweet tag c" by auto
  with s show ?thesis using retained_not_blank [of cs vs c tag] by simp
qed

text \<open>
  C10. Every record that the loop of one hashtag returns has a body that is not empty
  after stripping whitespace. A container whose text is empty or only whitespace changes
  neither the returned list nor the set of seen hashes: the loop gives the same result
  on the feed without these containers.
\<close>

theorem blank_containers_are_skipped:
  "(case fst (scroll_and_collect_tweets md5 page tag seen_hashes max_tweets max_scrolls) of
      None \<Rightarrow> True
    | Some out \<Rightarrow> \<forall>t\<in>set out. strip (content t) \<noteq> [])
   \<and> scroll_and_collect_tweets md5 (\<lambda>k. without_blank (page k)) tag seen_hashes
         max_tweets max_scrolls
       = scroll_and_collect_tweets md5 page tag seen_hashes max_tweets max_scrolls"
proof
  let ?vs = "map page [0..<nat max_scrolls]"
  show "case fst (scroll_and_collect_tweets md5 page tag seen_hashes max_tweets max_scrolls) of
      None \<Rightarrow> True
    | Some out \<Rightarrow> \<forall>t\<in>set out. strip (content t) \<noteq> []"
  proof (cases "fst (scroll_and_collect_tweets md5 page tag seen_hashes max_tweets max_scrolls)")
    case None
    then show ?thesis by simp
  next
    case (Some out)
    then have "scroll_loop md5 tag max_tweets ?vs ([], seen_hashes)
                 = (Some out, snd (scroll_loop md5 tag max_tweets ?vs ([], seen_hashes)))"
      unfolding scroll_and_collect_tweets_def by (metis prod.collapse)
    then have "\<forall>t\<in>set out. strip (content t) \<noteq> []"
      using scroll_loop_not_blank by blast
    with Some show ?thesis by simp
  qed
  have m: "map (\<lambda>k. without_blank (page k)) [0..<nat max_scrolls] = map without_blank ?vs"
    by simp
  show "scroll_and_collect_tweets md5 (\<lambda>k. without_blank (page k)) tag seen_hashes
         max_tweets max_scrolls
       = scroll_and_collect_tweets md5 page tag seen_hashes max_tweets max_scrolls"
    unfolding scroll_and_collect_tweets_def m by (rule scroll_loop_without_blank)
qed


theorem blank_containers_are_skipped_witness:
  "fst (scroll_and_collect_tweets plain_digest page_ab ''#nifty50'' {} 10 1)
     = Some [tweet_a, tweet_b]
   \<and> strip (content tweet_a) \<noteq> [] \<and> strip (content tweet_b) \<noteq> []
   \<and> scroll_and_collect_tweets plain_digest (\<lambda>k. without_blank (page_ab k)) ''#nifty50'' {} 10 1
       = (Some [tweet_a, tweet_b], {hash_a, hash_b})"
proof -
  note t = blank_containers_are_skipped [of plain_digest page_ab "''#nifty50''" "{}" 10 1]
  from t have eq: "scroll_and_collect_tweets plain_digest (\<lambda>k. without_blank (page_ab k))
        ''#nifty50'' {} 10 1
      = scroll_and_collect_tweets plain_digest page_ab ''#nifty50'' {} 10 1"
    by (rule conjunct2)
  from t have "case fst (scroll_and_collect_tweets plain_digest page_ab ''#nifty50'' {} 10 1) of
      None \<Rightarrow> True
    | Some out \<Rightarrow> \<forall>t\<in>set out. strip (content t) \<noteq> []"
    by (rule conjunct1)
  then have "\<forall>t\<in>set [tweet_a, tweet_b]. strip (content t) \<noteq> []"
    by (simp only: run_ab fst_conv option.case)
  then have c: "strip (content tweet_a) \<noteq> []" "strip (content tweet_b) \<noteq> []"
    by simp_all
  have f: "fst (scroll_and_collect_tweets plain_digest page_ab ''#nifty50'' {} 10 1)
     = Some [tweet_a, tweet_b]"
    by (simp only: run_ab fst_conv)
  from eq have g: "scroll_and_collect_tweets plain_digest (\<lambda>k. without_blank (page_ab k))
        ''#nifty50'' {} 10 1 = (Some [tweet_a, tweet_b], {hash_a, hash_b})"
    by (simp only: run_ab)
  from f c g show ?thesis by blast
qed


section \<open>The orchestration of the hashtags\<close>

text \<open>
  C8, as the code has it. A run that collects nothing and a run that collects two posts
  hand the same value back to their caller: \<^verbatim>\<open>scrape_multiple_tags\<close> has no
  \<^verbatim>\<open>return\<close> statement and raises nothing in either case.
\<close>

theorem scrape_multiple_tags_returns_the_same:
  "collect_all plain_digest 10 1 [] = []
   \<and> collect_all plain_digest 10 1 [(''#nifty50'', Some page_ab)] = [tweet_a, tweet_b]
   \<and> fst (scrape_multiple_tags plain_digest ''20250801_0930'' [] 10 1)
       = fst (scrape_multiple_tags plain_digest ''20250801_0930'' [(''#nifty50'', Some page_ab)] 10 1)"
  by (simp add: collect_all_ab) (simp add: collect_all_def)

text \<open>
  C8, amended. When the merged result of a run is empty, the run logs the error
  "No tweets found.", prints "No tweets found across all tags." and writes no file. When
  it is not empty, the run logs no such error and writes the result to its CSV and
  Parquet files. The two outcomes differ in these effects only.
\<close>

theorem scrape_multiple_tags_reports_no_tweets:
  "(collect_all md5 max_tweets max_scrolls visits = [] \<longrightarrow>
      snd (scrape_multiple_tags md5 now visits max_tweets max_scrolls)
        = [LogError ''No tweets found.'', Print ''No tweets found across all tags.''])
   \<and> (collect_all md5 max_tweets max_scrolls visits \<noteq> [] \<longrightarrow>
        LogError ''No tweets found.''
          \<notin> set (snd (scrape_multiple_tags md5 now visits max_tweets max_scrolls))
        \<and> WriteCsv (''data/raw/tweets_'' @ now @ ''.csv'')
             (collect_all md5 max_tweets max_scrolls visits)
          \<in> set (snd (scrape_multiple_tags md5 now visits max_tweets max_scrolls))
        \<and> WriteParquet (''data/raw/tweets_'' @ now @ ''.parquet'')
             (collect_all md5 max_tweets max_scrolls visits)
          \<in> set (snd (scrape_multiple_tags md5 now visits max_tweets max_scrolls)))"
  by (simp add: scrape_multiple_tags_def Let_def)

theorem scrape_multiple_tags_reports_no_tweets_witness:
  "collect_all plain_digest 10 1 [] = []
   \<and> snd (scrape_multiple_tags plain_digest ''20250801_0930'' [] 10 1)
       = [LogError ''No tweets found.'', Print ''No tweets found across all tags.'']
   \<and> collect_all plain_digest 10 1 [(''#nifty50'', Some page_ab)] \<noteq> []
   \<and> WriteCsv ''data/raw/tweets_20250801_0930.csv'' [tweet_a, tweet_b]
       \<in> set (snd (scrape_multiple_tags plain_digest ''20250801_0930''
                      [(''#nifty50'', Some page_ab)] 10 1))"
proof -
  have e: "collect_all plain_digest 10 1 [] = []"
    by (simp add: collect_all_def)
  have n: "collect_all plain_digest 10 1 [(''#nifty50'', Some page_ab)] \<noteq> []"
    by (simp add: collect_all_ab)
  from scrape_multiple_tags_reports_no_tweets
         [of plain_digest 10 1 "[]" "''20250801_0930''"] e
  have r1: "snd (scrape_multiple_tags plain_digest ''20250801_0930'' [] 10 1)
       = [LogError ''No tweets found.'', Print ''No tweets found across all tags.'']"
    by blast
  from scrape_multiple_tags_reports_no_tweets
         [of plain_digest 10 1 "[(''#nifty50'', Some page_ab)]" "''20250801_0930''"] n
  have "WriteCsv (''data/raw/tweets_'' @ ''20250801_0930'' @ ''.csv'')
          (collect_all plain_digest 10 1 [(''#nifty50'', Some page_ab)])
       \<in> set (snd (scrape_multiple_tags plain_digest ''20250801_0930''
                      [(''#nifty50'', Some page_ab)] 10 1))"
    by blast
  then have r2: "WriteCsv ''data/raw/tweets_20250801_0930.csv'' [tweet_a, tweet_b]
       \<in> set (snd (scrape_multiple_tags plain_digest ''20250801_0930''
                      [(''#nifty50'', Some page_ab)] 10 1))"
    by (simp add: collect_all_ab)
  from e r1 n r2 show ?thesis by blast
qed



section \<open>The sentiment classifier\<close>

text \<open>
  C4. For every body, with buy hits and sell hits counted as the keywords of each list
  that occur in the body up to the case of letters, \<open>classify_sentiment\<close> answers buy
  when there are strictly more buy hits, sell when there are strictly more sell hits, and
  neutral when the counts are equal. The body "Nifty breakout, target 20000, go long"
  has 3 buy hits and 0 sell hits and is classified buy. Capital letters count as their
  small letters: "SELL on Resistance" has 2 sell hits and no buy hit and is classified
  sell, "Buy or Sell?" has one hit of each kind and is neutral, and a body without any
  keyword is neutral.
\<close>

theorem classify_sentiment_by_hits:
  "classify_sentiment body =
     (if spec_hits buy_keywords body > spec_hits sell_keywords body then ''buy''
      else if spec_hits sell_keywords body > spec_hits buy_keywords body then ''sell''
      else ''neutral'')
   \<and> spec_hits buy_keywords ''Nifty breakout, target 20000, go long'' = 3
   \<and> spec_hits sell_keywords ''Nifty breakout, target 20000, go long'' = 0
   \<and> classify_sentiment ''Nifty breakout, target 20000, go long'' = ''buy''
   \<and> spec_hits buy_keywords ''SELL on Resistance'' = 0
   \<and> spec_hits sell_keywords ''SELL on Resistance'' = 2
   \<and> classify_sentiment ''SELL on Resistance'' = ''sell''
   \<and> spec_hits buy_keywords ''Buy or Sell?'' = 1
   \<and> spec_hits sell_keywords ''Buy or Sell?'' = 1
   \<and> classify_sentiment ''Buy or Sell?'' = ''neutral''
   \<and> classify_sentiment ''Nifty 20000'' = ''neutral''"
proof -
  note b = keyword_hits_spec [OF distinct_buy_keywords small_buy_keywords, symmetric]
  note s = keyword_hits_spec [OF distinct_sell_keywords small_sell_keywords, symmetric]
  have h1: "spec_hits buy_keywords ''Nifty breakout, target 20000, go long'' = 3"
    "spec_hits sell_keywords ''Nifty breakout, target 20000, go long'' = 0"
    by (simp_all only: b s hits_example_1)
  have h2: "spec_hits buy_keywords ''SELL on Resistance'' = 0"
    "spec_hits sell_keywords ''SELL on Resistance'' = 2"
    by (simp_all only: b s hits_example_2)
  have h3: "spec_hits buy_keywords ''Buy or Sell?'' = 1"
    "spec_hits sell_keywords ''Buy or Sell?'' = 1"
    by (simp_all only: b s hits_example_3)
  have c1: "classify_sentiment ''Nifty breakout, target 20000, go long'' = ''buy''"
    by (simp only: classify_sentiment_spec h1) simp
  have c2: "classify_sentiment ''SELL on Resistance'' = ''sell''"
    by (simp only: classify_sentiment_spec h2) simp
  have c3: "classify_sentiment ''Buy or Sell?'' = ''neutral''"
    by (simp only: classify_sentiment_spec h3) simp
  have c4: "classify_sentiment ''Nifty 20000'' = ''neutral''"
    by code_simp
  from classify_sentiment_spec [of body] h1 h2 h3 c1 c2 c3 c4 show ?thesis by blast
qed

section \<open>The aggregator\<close>

subsection \<open>The error of rounding\<close>

lemma bit_length_nonneg: "0 \<le> bit_length n"
  by (induction n rule: bit_length.induct) (subst bit_length.simps, simp)

lemma bit_length_le: "n < 2 ^ k \<Longrightarrow> bit_length n \<le> int k"
proof (induction k arbitrary: n)
  case 0
  then show ?case by (subst bit_length.simps) simp
next
  case (Suc k)
  show ?case
  proof (cases "n \<le> 0")
    case True
    then show ?thesis by (subst bit_length.simps) simp
  next
    case False
    from Suc.prems have "n div 2 < 2 ^ k" by simp
    then have "bit_length (n div 2) \<le> int k" by (rule Suc.IH)
    with False show ?thesis by (subst bit_length.simps) simp
  qed
qed

lemma pow2_mono: "e \<le> e' \<Longrightarrow> pow2 e \<le> pow2 e'"
proof -
  assume le: "e \<le> e'"
  have p: "pow2 e = 2 powi e" for e
    by (simp add: pow2_def power_int_def field_simps)
  from le show ?thesis
    unfolding p by (intro power_int_increasing) simp_all
qed

lemma round_half_even_error: "\<bar>of_int (round_half_even x) - x\<bar> \<le> 1 / 2"
proof -
  define f where "f = \<lfloor>x\<rfloor>"
  define d where "d = x - of_int f"
  have d: "0 \<le> d" "d < 1" unfolding d_def f_def by linarith+
  have x: "x = of_int f + d" unfolding d_def by simp
  have r: "round_half_even x =
      (if d < 1 / 2 then f else if 1 / 2 < d then f + 1 else if even f then f else f + 1)"
    unfolding round_half_even_def Let_def f_def d_def by simp
  have "\<bar>of_int (if d < 1 / 2 then f else if 1 / 2 < d then f + 1
                    else if even f then f else f + 1) - (of_int f + d)\<bar> \<le> 1 / 2"
    using d by (auto simp: abs_if)
  then have "\<bar>of_int (if d < 1 / 2 then f else if 1 / 2 < d then f + 1
                    else if even f then f else f + 1) - x\<bar> \<le> 1 / 2"
    using x by simp
  then show ?thesis by (simp only: r)
qed

lemma binary_exponent_small:
  assumes "a < 1024"
  shows "binary_exponent a \<le> 9"
proof (cases "1 \<le> a")
  case True
  from assms have "\<lfloor>a\<rfloor> < 1024" by (simp add: floor_less_iff)
  then have "\<lfloor>a\<rfloor> < 2 ^ 10" by simp
  then have "bit_length \<lfloor>a\<rfloor> \<le> int 10" by (rule bit_length_le)
  with True show ?thesis by (simp add: binary_exponent_def)
next
  case False
  with bit_length_nonneg [of "\<lceil>1 / a\<rceil> - 1"] show ?thesis
    by (simp add: binary_exponent_def)
qed

lemma fl_error:
  assumes "\<bar>x\<bar> < 1024"
  shows "\<bar>fl x - x\<bar> \<le> 1 / 2 ^ 44"
proof (cases "x = 0")
  case True
  then show ?thesis by (simp add: fl_def)
next
  case False
  define a where "a = \<bar>x\<bar>"
  define e where "e = max (binary_exponent a) (- 1022)"
  define q where "q = pow2 (e - 52)"
  define m where "m = round_half_even (a / q)"
  have fl: "fl x = sgn x * of_int m * q"
    using False by (simp add: fl_def Let_def a_def e_def q_def m_def)
  have qpos: "0 < q" unfolding q_def by (rule pow2_pos)
  have "binary_exponent a \<le> 9" using assms unfolding a_def by (rule binary_exponent_small)
  then have "e - 52 \<le> - 43" by (simp add: e_def)
  then have "q \<le> pow2 (- 43)" unfolding q_def by (rule pow2_mono)
  then have qle: "q \<le> 1 / 2 ^ 43" by (simp add: pow2_def)
  have "\<bar>of_int m - a / q\<bar> \<le> 1 / 2" unfolding m_def by (rule round_half_even_error)
  then have "\<bar>of_int m - a / q\<bar> * q \<le> 1 / 2 * q"
    using qpos by (intro mult_right_mono) simp_all
  moreover have "\<bar>of_int m - a / q\<bar> * q = \<bar>of_int m * q - a\<bar>"
  proof -
    have "\<bar>of_int m - a / q\<bar> * q = \<bar>(of_int m - a / q) * q\<bar>"
      using qpos by (simp add: abs_mult)
    also have "(of_int m - a / q) * q = of_int m * q - a"
      using qpos by (simp add: field_simps)
    finally show ?thesis .
  qed
  ultimately have err: "\<bar>of_int m * q - a\<bar> \<le> 1 / 2 * q" by simp
  have "x = sgn x * a" unfolding a_def by (simp add: mult_sgn_abs)
  then have "fl x - x = sgn x * of_int m * q - sgn x * a" unfolding fl by simp
  then have "fl x - x = sgn x * (of_int m * q - a)" by (simp add: algebra_simps)
  then have "\<bar>fl x - x\<bar> = \<bar>of_int m * q - a\<bar>"
    using False by (simp add: abs_mult abs_sgn_eq)
  with err qle show ?thesis by simp
qed


subsection \<open>The three fractions of a day\<close>

lemma count_sentiment_nonneg: "0 \<le> count_sentiment s grp"
  by (simp add: count_sentiment_def)

lemma count_sentiment_partition:
  assumes "\<And>row. row \<in> set grp \<Longrightarrow> fst row = ''buy'' \<or> fst row = ''sell'' \<or> fst row = ''neutral''"
  shows "count_sentiment ''buy'' grp + count_sentiment ''sell'' grp
           + count_sentiment ''neutral'' grp = int (length grp)"
  using assms
proof (induction grp)
  case Nil
  then show ?case by (simp add: count_sentiment_def)
next
  case (Cons row grp)
  have "fst row = ''buy'' \<or> fst row = ''sell'' \<or> fst row = ''neutral''"
    by (rule Cons.prems) simp
  moreover have "count_sentiment ''buy'' grp + count_sentiment ''sell'' grp
           + count_sentiment ''neutral'' grp = int (length grp)"
    by (rule Cons.IH) (simp add: Cons.prems)
  ultimately show ?case
    by (auto simp: count_sentiment_def)
qed

lemma fraction_error:
  fixes k n :: int
  assumes "0 \<le> k" "k \<le> n" "0 < n"
  shows "\<bar>fdiv (of_int k) (of_int n) - of_int k / of_int n\<bar> \<le> 1 / 2 ^ 44"
proof -
  have "0 \<le> (of_int k :: rat) / of_int n" using assms by simp
  moreover have "(of_int k :: rat) / of_int n \<le> 1" using assms by simp
  ultimately have "\<bar>(of_int k :: rat) / of_int n\<bar> < 1024" by simp
  then show ?thesis unfolding fdiv_def by (rule fl_error)
qed

lemma py_round_3_error:
  assumes "\<bar>x\<bar> \<le> 2"
  shows "\<bar>py_round x 3 - of_int (round_half_even (x * 1000)) / 1000\<bar> \<le> 1 / 2 ^ 44"
proof -
  define r where "r = round_half_even (x * 1000)"
  have "\<bar>of_int r - x * 1000\<bar> \<le> 1 / 2" unfolding r_def by (rule round_half_even_error)
  with assms have "\<bar>(of_int r :: rat)\<bar> \<le> 2001" by linarith
  then have "\<bar>(of_int r :: rat) / 1000\<bar> < 1024" by linarith
  then have "\<bar>fl (of_int r / 1000) - of_int r / 1000\<bar> \<le> 1 / 2 ^ 44" by (rule fl_error)
  then show ?thesis by (simp add: py_round_def r_def)
qed

lemma rounded_fractions_sum:
  fixes kb ks kn n :: int
  assumes nn: "0 \<le> kb" "0 \<le> ks" "0 \<le> kn" and sum: "kb + ks + kn = n" and pos: "0 < n"
  shows "\<bar>py_round (fdiv (of_int kb) (of_int n)) 3 + py_round (fdiv (of_int ks) (of_int n)) 3
          + py_round (fdiv (of_int kn) (of_int n)) 3 - 1\<bar> \<le> 1 / 1000 + 3 / 2 ^ 44"
proof -
  define u :: rat where "u = 1 / 2 ^ 44"
  have u: "0 < u" "u \<le> 1 / 1000000" by (simp_all add: u_def)
  define pb ps pn :: rat where "pb = of_int kb / of_int n" and "ps = of_int ks / of_int n"
    and "pn = of_int kn / of_int n"
  define xb xs xn where "xb = fdiv (of_int kb) (of_int n)" and "xs = fdiv (of_int ks) (of_int n)"
    and "xn = fdiv (of_int kn) (of_int n)"
  define rb rs rn where "rb = round_half_even (xb * 1000)" and "rs = round_half_even (xs * 1000)"
    and "rn = round_half_even (xn * 1000)"
  have le: "kb \<le> n" "ks \<le> n" "kn \<le> n" using nn sum by simp_all
  have "(of_int kb + of_int ks + of_int kn :: rat) = of_int n"
    using sum by (metis of_int_add)
  then have one: "pb + ps + pn = 1"
    using pos by (simp add: pb_def ps_def pn_def add_divide_distrib [symmetric])
  have p: "0 \<le> pb" "pb \<le> 1" "0 \<le> ps" "ps \<le> 1" "0 \<le> pn" "pn \<le> 1"
    using nn le pos by (simp_all add: pb_def ps_def pn_def)
  have e1: "\<bar>xb - pb\<bar> \<le> u" "\<bar>xs - ps\<bar> \<le> u" "\<bar>xn - pn\<bar> \<le> u"
    unfolding xb_def xs_def xn_def pb_def ps_def pn_def u_def
    by (rule fraction_error; fact)+
  have e2: "\<bar>of_int rb - xb * 1000\<bar> \<le> 1 / 2" "\<bar>of_int rs - xs * 1000\<bar> \<le> 1 / 2"
    "\<bar>of_int rn - xn * 1000\<bar> \<le> 1 / 2"
    unfolding rb_def rs_def rn_def by (rule round_half_even_error)+
  have small: "\<bar>xb\<bar> \<le> 2" "\<bar>xs\<bar> \<le> 2" "\<bar>xn\<bar> \<le> 2"
    using e1 p u by linarith+
  have e3: "\<bar>py_round xb 3 - of_int rb / 1000\<bar> \<le> u"
    "\<bar>py_round xs 3 - of_int rs / 1000\<bar> \<le> u"
    "\<bar>py_round xn 3 - of_int rn / 1000\<bar> \<le> u"
    unfolding rb_def rs_def rn_def u_def by (rule py_round_3_error; fact)+
  have "\<bar>(of_int rb + of_int rs + of_int rn :: rat) - 1000\<bar> < 2"
    using e1 e2 one u by linarith
  then have "\<bar>(of_int (rb + rs + rn - 1000) :: rat)\<bar> < of_int 2" by simp
  then have "\<bar>rb + rs + rn - 1000\<bar> < 2"
    by (simp only: of_int_abs [symmetric] of_int_less_iff)
  then have "\<bar>rb + rs + rn - 1000\<bar> \<le> 1" by simp
  then have "\<bar>(of_int (rb + rs + rn - 1000) :: rat)\<bar> \<le> of_int 1"
    by (simp only: of_int_abs [symmetric] of_int_le_iff)
  then have i: "\<bar>(of_int rb + of_int rs + of_int rn :: rat) - 1000\<bar> \<le> 1" by simp
  have "\<bar>py_round xb 3 + py_round xs 3 + py_round xn 3 - 1\<bar> \<le> 1 / 1000 + 3 * u"
    using e3 i by linarith
  then show ?thesis
    unfolding xb_def xs_def xn_def u_def by simp
qed


subsection \<open>Evaluating float arithmetic\<close>

lemma fl_unfold:
  "fl x =
     (if x = 0 then 0
      else sgn x
           * of_int (round_half_even (\<bar>x\<bar> / pow2 (max (binary_exponent \<bar>x\<bar>) (- 1022) - 52)))
           * pow2 (max (binary_exponent \<bar>x\<bar>) (- 1022) - 52))"
  by (simp add: fl_def Let_def)

lemma round_half_even_unfold:
  "round_half_even x =
     (if x - of_int \<lfloor>x\<rfloor> < 1 / 2 then \<lfloor>x\<rfloor>
      else if 1 / 2 < x - of_int \<lfloor>x\<rfloor> then \<lfloor>x\<rfloor> + 1
      else if even \<lfloor>x\<rfloor> then \<lfloor>x\<rfloor> else \<lfloor>x\<rfloor> + 1)"
  by (simp add: round_half_even_def Let_def)

lemmas float_eval = fl_unfold round_half_even_unfold binary_exponent_def pow2_def

lemmas agg_unfold = score_def count_sentiment_def mean_keyword_score_def
  fadd_def fmul_def fdiv_def py_round_def buy_threshold_def sell_threshold_def Let_def


subsection \<open>The groups of a table\<close>

lemma classify_sentiment_values:
  "classify_sentiment body = ''buy'' \<or> classify_sentiment body = ''sell''
   \<or> classify_sentiment body = ''neutral''"
  by (simp add: classify_sentiment_def Let_def)

lemma group_of_sentiments:
  "row \<in> set (group_of date_of kept d)
   \<Longrightarrow> fst row = ''buy'' \<or> fst row = ''sell'' \<or> fst row = ''neutral''"
proof -
  assume "row \<in> set (group_of date_of kept d)"
  then obtain body where "fst row = classify_sentiment body"
    by (auto simp: group_of_def)
  with classify_sentiment_values [of body] show ?thesis by simp
qed

lemma length_group_of:
  "length (group_of date_of kept d) = length (filter (\<lambda>(row, t). date_of t = d) kept)"
  by (simp add: group_of_def)

lemma group_of_nonempty:
  "d \<in> set (map (\<lambda>(row, t). date_of t) kept) \<Longrightarrow> group_of date_of kept d \<noteq> []"
  by (auto simp: group_of_def filter_empty_conv)

lemma aggregate_member:
  assumes "(d, s) \<in> set (aggregate date_of kept)"
  shows "s = compute_aggregated_signals (group_of date_of kept d)"
    and "group_of date_of kept d \<noteq> []"
proof -
  from assms have d: "d \<in> set (map (\<lambda>(row, t). date_of t) kept)"
    and s: "s = compute_aggregated_signals (group_of date_of kept d)"
    by (auto simp: aggregate_def)
  from s show "s = compute_aggregated_signals (group_of date_of kept d)" .
  from d show "group_of date_of kept d \<noteq> []" by (rule group_of_nonempty)
qed

lemma tweet_volume_compute: "tweet_volume (compute_aggregated_signals grp) = int (length grp)"
  by (simp add: compute_aggregated_signals_def Let_def)

lemma compute_fields:
  assumes "grp \<noteq> []"
  shows "buy_pct (compute_aggregated_signals grp)
           = py_round (fdiv (of_int (count_sentiment ''buy'' grp)) (of_int (int (length grp)))) 3"
    and "sell_pct (compute_aggregated_signals grp)
           = py_round (fdiv (of_int (count_sentiment ''sell'' grp)) (of_int (int (length grp)))) 3"
    and "neutral_pct (compute_aggregated_signals grp)
           = py_round (fdiv (of_int (count_sentiment ''neutral'' grp)) (of_int (int (length grp)))) 3"
    and "avg_keyword_score (compute_aggregated_signals grp) = py_round (mean_keyword_score grp) 2"
    and "composite_score (compute_aggregated_signals grp) = py_round (score grp) 3"
    and "signal (compute_aggregated_signals grp)
           = (if score grp > buy_threshold then ''buy''
              else if score grp < sell_threshold then ''sell'' else ''neutral'')"
    and "confidence_pct (compute_aggregated_signals grp) = py_round (fmul (score grp) 100) 1"
  using assms by (simp_all add: compute_aggregated_signals_def Let_def)

lemma compute_percentages:
  assumes "grp \<noteq> []"
    and "\<And>row. row \<in> set grp \<Longrightarrow> fst row = ''buy'' \<or> fst row = ''sell'' \<or> fst row = ''neutral''"
  shows "\<bar>buy_pct (compute_aggregated_signals grp) + sell_pct (compute_aggregated_signals grp)
           + neutral_pct (compute_aggregated_signals grp) - 1\<bar> \<le> 1 / 1000 + 3 / 2 ^ 44"
proof -
  have pos: "0 < int (length grp)" using assms(1) by simp
  have sum: "count_sentiment ''buy'' grp + count_sentiment ''sell'' grp
           + count_sentiment ''neutral'' grp = int (length grp)"
    using assms(2) by (rule count_sentiment_partition)
  show ?thesis
    unfolding compute_fields(1-3) [OF assms(1)]
    by (rule rounded_fractions_sum [OF count_sentiment_nonneg count_sentiment_nonneg
          count_sentiment_nonneg sum pos])
qed

text \<open>
  C9. Every row of the output table belongs to a date with at least one post, and its
  three percentages, each rounded to three decimals, add up to 1 within 0.001 (one unit
  of the rounding) and three float rounding errors. Every post of the table has one of
  the three sentiments, so the three counts add up to the volume.
\<close>

theorem daily_percentages_sum_to_one:
  assumes "(d, s) \<in> set (aggregate date_of kept)"
  shows "0 < tweet_volume s
         \<and> \<bar>buy_pct s + sell_pct s + neutral_pct s - 1\<bar> \<le> 1 / 1000 + 3 / 2 ^ 44"
proof -
  from aggregate_member [OF assms]
  have s: "s = compute_aggregated_signals (group_of date_of kept d)"
    and n: "group_of date_of kept d \<noteq> []" .
  from n have "0 < tweet_volume s" unfolding s tweet_volume_compute by simp
  moreover have "\<bar>buy_pct s + sell_pct s + neutral_pct s - 1\<bar> \<le> 1 / 1000 + 3 / 2 ^ 44"
    unfolding s using n group_of_sentiments by (rule compute_percentages)
  ultimately show ?thesis by blast
qed


(*AGG-END*)

end
